theory Spec2Isabelle
  imports
    Main
    "HOL-Library.Char_ord"
    "HOL-Library.List_Lexorder"
    "HOL-Library.Product_Lexorder"
    "HOL-Library.Multiset"
begin

section \<open>Rows, values and errors\<close>

text \<open>
  A row is a Python \<^verbatim>\<open>dict\<close> from column names to values. A dict keeps its keys in
  insertion order, and several properties of the engine are about that order, so a row
  is an association list: the columns in insertion order, each name once.
  The values are the immutable scalars the operations below look at: \<^verbatim>\<open>None\<close>,
  integers and strings. Timestamps and nested rows are left out, and so are floats:
  a float is not compared like a value of a datatype (\<^verbatim>\<open>1 == 1.0\<close> holds, and a
  NaN is neither equal to, smaller than nor greater than any float), so a statement
  below that depends on comparing keys says that the key columns hold integers only
  or strings only.
  \<^verbatim>\<open>deepcopy\<close> of such a value is the value itself.
\<close>

datatype val = VNone | VInt int | VStr string

type_synonym row = "(string \<times> val) list"

text \<open>
  What a stream can raise. A stream is consumed by the caller as a whole: the model
  returns either every row of the stream or the first exception that draining it raises
  (the rows yielded before the exception are not kept). \<open>Exception\<close> is the plain
  \<^verbatim>\<open>Exception\<close> that \<^verbatim>\<open>Graph.run\<close> raises. \<open>Blocked\<close> is not an exception: it
  stands for a call that never returns, because the driver waits on the pipe of a
  helper process that has died.
\<close>

datatype error = KeyError | TypeError | AssertionError | FileNotFoundError | Exception | Blocked

type_synonym rows = "error + row list"

definition columns :: "row \<Rightarrow> string list" where
  "columns r = map fst r"

text \<open>\<^verbatim>\<open>column in row\<close>\<close>

definition contains :: "row \<Rightarrow> string \<Rightarrow> bool" where
  "contains r c = (c \<in> set (columns r))"

text \<open>\<^verbatim>\<open>row[column]\<close>: raises \<^verbatim>\<open>KeyError\<close> on a missing column.\<close>

definition getitem :: "row \<Rightarrow> string \<Rightarrow> error + val" where
  "getitem r c = (case map_of r c of None \<Rightarrow> Inl KeyError | Some v \<Rightarrow> Inr v)"

text \<open>
  \<^verbatim>\<open>row[column] = value\<close>: a column that is present keeps its position and takes the
  new value, a new column goes to the end.
\<close>

primrec setitem :: "row \<Rightarrow> string \<Rightarrow> val \<Rightarrow> row" where
  "setitem [] c v = [(c, v)]"
| "setitem (p # r) c v = (if fst p = c then (c, v) # r else p # setitem r c v)"

text \<open>
  \<^verbatim>\<open>yield from a\<close> followed by the rest of the generator \<open>b\<close>: the first exception
  ends the stream.
\<close>

fun yield_from :: "error + 'a list \<Rightarrow> error + 'a list \<Rightarrow> error + 'a list" where
  "yield_from (Inl e) b = Inl e"
| "yield_from (Inr xs) (Inl e) = Inl e"
| "yield_from (Inr xs) (Inr ys) = Inr (xs @ ys)"

section \<open>Map and the mappers\<close>

type_synonym mapper = "row \<Rightarrow> rows"

text \<open>\<^verbatim>\<open>Map.__call__\<close>: \<^verbatim>\<open>for row in rows: yield from self.mapper(row)\<close>\<close>

primrec Map :: "mapper \<Rightarrow> row list \<Rightarrow> rows" where
  "Map mapper [] = Inr []"
| "Map mapper (r # rs) = yield_from (mapper r) (Map mapper rs)"

text \<open>
  \<^verbatim>\<open>Project.__call__\<close>:
  \<^verbatim>\<open>yield {column: deepcopy(row[column]) if column in row else None for column in self.columns}\<close>.
  The comprehension assigns the columns to an empty dict one after the other.
\<close>

definition Project :: "string list \<Rightarrow> mapper" where
  "Project cols r =
     Inr [fold (\<lambda>column d. setitem d column
                  (if contains r column then the (map_of r column) else VNone))
            cols []]"

text \<open>
  \<^verbatim>\<open>re.compile(r'\W+').split(s)\<close>, for ASCII text: a word character is a letter, a
  digit or the underscore; every maximal run of other characters separates two tokens,
  and a run at either end of the text leaves an empty token there.
  \<open>split_W cs tok sep\<close> reads \<open>cs\<close> with the token \<open>tok\<close> read so far;
  \<open>sep\<close> says that the last character read was a separator.
\<close>

definition is_word :: "char \<Rightarrow> bool" where
  "is_word c =
     (let n = (of_char c :: nat)
      in (48 \<le> n \<and> n \<le> 57) \<or> (65 \<le> n \<and> n \<le> 90) \<or> n = 95 \<or> (97 \<le> n \<and> n \<le> 122))"

fun split_W :: "string \<Rightarrow> string \<Rightarrow> bool \<Rightarrow> string list" where
  "split_W [] tok sep = [tok]"
| "split_W (c # cs) tok sep =
     (if is_word c then split_W cs (tok @ [c]) False
      else if sep then split_W cs tok True
      else tok # split_W cs [] True)"

definition re_split :: "string \<Rightarrow> string list" where
  "re_split s = split_W s [] False"

text \<open>
  \<^verbatim>\<open>Split\<close>: the constructor stores \<^verbatim>\<open>separator\<close>; \<^verbatim>\<open>__call__\<close> is
  \<^verbatim>\<open>words = self._filter.split(row[self.column])\<close>, then for each word a copy of the
  row with the column set to the word. Splitting a value that is not a string raises
  \<^verbatim>\<open>TypeError\<close>.
\<close>

definition Split :: "string \<Rightarrow> string option \<Rightarrow> mapper" where
  "Split column separator r =
     (case getitem r column of
        Inl e \<Rightarrow> Inl e
      | Inr (VStr s) \<Rightarrow> Inr (map (\<lambda>word. setitem r column (VStr word)) (re_split s))
      | Inr _ \<Rightarrow> Inl TypeError)"

section \<open>Reduce and Count\<close>

text \<open>\<^verbatim>\<open>tuple(row[key] for key in self.keys)\<close>\<close>

primrec key_tuple :: "string list \<Rightarrow> row \<Rightarrow> error + val list" where
  "key_tuple [] r = Inr []"
| "key_tuple (key # keys) r =
     (case getitem r key of
        Inl e \<Rightarrow> Inl e
      | Inr v \<Rightarrow> (case key_tuple keys r of Inl e \<Rightarrow> Inl e | Inr vs \<Rightarrow> Inr (v # vs)))"

definition same_key :: "string list \<Rightarrow> val list \<Rightarrow> row \<Rightarrow> bool" where
  "same_key keys k r = (key_tuple keys r = Inr k)"

type_synonym reducer = "string list \<Rightarrow> row list \<Rightarrow> rows"

text \<open>
  \<^verbatim>\<open>Reduce.__call__\<close>:
  \<^verbatim>\<open>for _, grouper in groupby(rows, key=...): yield from self.reducer(tuple(self.keys), grouper)\<close>.
  \<^verbatim>\<open>groupby\<close> takes the key of the first row and hands out the rows that follow for
  as long as their key equals it; the next group starts at the first row with
  another key. An empty stream has no group.
\<close>

function Reduce :: "reducer \<Rightarrow> string list \<Rightarrow> row list \<Rightarrow> rows" where
  "Reduce reducer keys [] = Inr []"
| "Reduce reducer keys (r # rs) =
     (case key_tuple keys r of
        Inl e \<Rightarrow> Inl e
      | Inr k \<Rightarrow>
          yield_from (reducer keys (r # takeWhile (same_key keys k) rs))
            (Reduce reducer keys (dropWhile (same_key keys k) rs)))"
  by pat_completeness auto
termination
  by (relation "measure (\<lambda>(reducer, keys, rs). length rs)")
     (auto simp: less_Suc_eq_le length_dropWhile_le)

text \<open>\<^verbatim>\<open>new_row[self.column] += 1\<close>: only an integer can be incremented.\<close>

fun add_one :: "val \<Rightarrow> error + val" where
  "add_one (VInt i) = Inr (VInt (i + 1))"
| "add_one v = Inl TypeError"

text \<open>\<^verbatim>\<open>new_row.update({key: deepcopy(row[key]) for key in group_key})\<close>\<close>

definition dict_update :: "row \<Rightarrow> row \<Rightarrow> row" where
  "dict_update d other = fold (\<lambda>(k, v) d'. setitem d' k v) other d"

definition update_keys :: "row \<Rightarrow> string list \<Rightarrow> row \<Rightarrow> error + row" where
  "update_keys new_row group_key r =
     (case key_tuple group_key r of
        Inl e \<Rightarrow> Inl e
      | Inr vs \<Rightarrow> Inr (dict_update new_row (dict_update [] (zip group_key vs))))"

text \<open>
  The body of the loop of \<^verbatim>\<open>Count.__call__\<close>:
  \<^verbatim>\<open>if group_key and group_key[0] not in new_row: new_row.update(...)\<close>, then
  \<^verbatim>\<open>new_row[self.column] += 1\<close>.
\<close>

definition Count_step :: "string \<Rightarrow> string list \<Rightarrow> row \<Rightarrow> row \<Rightarrow> error + row" where
  "Count_step column group_key new_row r =
     (case (if group_key \<noteq> [] \<and> \<not> contains new_row (hd group_key)
            then update_keys new_row group_key r else Inr new_row) of
        Inl e \<Rightarrow> Inl e
      | Inr new_row' \<Rightarrow>
          (case getitem new_row' column of
             Inl e \<Rightarrow> Inl e
           | Inr v \<Rightarrow>
               (case add_one v of
                  Inl e \<Rightarrow> Inl e
                | Inr v' \<Rightarrow> Inr (setitem new_row' column v'))))"

primrec Count_loop :: "string \<Rightarrow> string list \<Rightarrow> row \<Rightarrow> row list \<Rightarrow> error + row" where
  "Count_loop column group_key new_row [] = Inr new_row"
| "Count_loop column group_key new_row (r # rs) =
     (case Count_step column group_key new_row r of
        Inl e \<Rightarrow> Inl e
      | Inr new_row' \<Rightarrow> Count_loop column group_key new_row' rs)"

text \<open>
  \<^verbatim>\<open>Count.__call__\<close>: \<^verbatim>\<open>new_row = dict(); new_row.setdefault(self.column, 0)\<close>, the
  loop over the rows of the group, \<^verbatim>\<open>yield new_row\<close>.
\<close>

definition Count :: "string \<Rightarrow> reducer" where
  "Count column group_key rs =
     (case Count_loop column group_key [(column, VInt 0)] rs of
        Inl e \<Rightarrow> Inl e
      | Inr new_row \<Rightarrow> Inr [new_row])"

section \<open>Comparing values and key tuples\<close>

text \<open>
  Python's \<^verbatim>\<open><\<close> on the values of the model: integers by value, strings by code
  points, position by position; any other pair of these values, \<^verbatim>\<open>None\<close> with
  \<^verbatim>\<open>None\<close> included, raises \<^verbatim>\<open>TypeError\<close>. On the values of the model
  \<^verbatim>\<open><\<close> is a total order wherever it does not raise. That is not so for all
  values of Python: between floats \<^verbatim>\<open><\<close> never raises, and with a NaN it is
  \<^verbatim>\<open>False\<close> both ways. The properties of \<open>Join\<close> and \<open>ExternalSort\<close> are
  therefore stated for key columns that hold integers only or strings only
  (\<open>typed_keys\<close> below), not for all keys whose comparison does not raise.
\<close>

fun py_lt :: "val \<Rightarrow> val \<Rightarrow> error + bool" where
  "py_lt (VInt a) (VInt b) = Inr (a < b)"
| "py_lt (VStr a) (VStr b) = Inr (a < b)"
| "py_lt a b = Inl TypeError"

text \<open>
  \<^verbatim>\<open><\<close> on tuples: the first position where the two differ (by \<^verbatim>\<open>==\<close>) decides;
  when one is a prefix of the other, the shorter one is the smaller.
\<close>

fun tuple_lt :: "val list \<Rightarrow> val list \<Rightarrow> error + bool" where
  "tuple_lt [] [] = Inr False"
| "tuple_lt [] (y # ys) = Inr True"
| "tuple_lt (x # xs) [] = Inr False"
| "tuple_lt (x # xs) (y # ys) = (if x = y then tuple_lt xs ys else py_lt x y)"

section \<open>Join and the joiners\<close>

type_synonym joiner = "string list \<Rightarrow> row list \<Rightarrow> row list \<Rightarrow> row list"

text \<open>
  \<^verbatim>\<open>Joiner._join_two_rows\<close>. In
  \<^verbatim>\<open>set(row_a) & set(row_b) - set(keys)\<close> the difference binds tighter than the
  intersection. The columns of \<^verbatim>\<open>row_a\<close> are assigned first, then those of
  \<^verbatim>\<open>row_b\<close>; a column of the intersection is assigned under its name with the
  suffix appended. The generator yields the one joined row.
\<close>

definition intersected_keys :: "string list \<Rightarrow> row \<Rightarrow> row \<Rightarrow> string set" where
  "intersected_keys keys row_a row_b =
     set (columns row_a) \<inter> (set (columns row_b) - set keys)"

definition append_keys :: "string set \<Rightarrow> string \<Rightarrow> row \<Rightarrow> row \<Rightarrow> row" where
  "append_keys shared suffix r joined_row =
     fold (\<lambda>(key, v) d. if key \<in> shared then setitem d (key @ suffix) v else setitem d key v)
       r joined_row"

definition join_two_rows :: "string \<Rightarrow> string \<Rightarrow> string list \<Rightarrow> row \<Rightarrow> row \<Rightarrow> row list" where
  "join_two_rows a_suffix b_suffix keys row_a row_b =
     (let shared = intersected_keys keys row_a row_b
      in [append_keys shared b_suffix row_b (append_keys shared a_suffix row_a [])])"

text \<open>\<^verbatim>\<open>list(rows) or [{}]\<close>\<close>

definition or_empty_row :: "row list \<Rightarrow> row list" where
  "or_empty_row rs = (if rs = [] then [[]] else rs)"

text \<open>
  The four strategies; the two suffixes are the constructor's arguments
  (\<^verbatim>\<open>'_1'\<close> and \<^verbatim>\<open>'_2'\<close> by default). \<^verbatim>\<open>Join\<close> passes iterators, which are
  always true, so the test \<^verbatim>\<open>if rows_a and rows_b\<close> of \<^verbatim>\<open>InnerJoiner\<close> never
  fails there (with two lists it fails when one is empty, and then the loops emit
  nothing either). \<^verbatim>\<open>RightJoiner\<close> runs its outer loop over \<^verbatim>\<open>rows_b\<close> and
  passes the right row to \<^verbatim>\<open>_join_two_rows\<close> as \<^verbatim>\<open>row_a\<close>.
\<close>

definition InnerJoiner :: "string \<Rightarrow> string \<Rightarrow> joiner" where
  "InnerJoiner a_suffix b_suffix keys rows_a rows_b =
     concat (map (\<lambda>row_a.
       concat (map (\<lambda>row_b. join_two_rows a_suffix b_suffix keys row_a row_b) rows_b))
       rows_a)"

definition OuterJoiner :: "string \<Rightarrow> string \<Rightarrow> joiner" where
  "OuterJoiner a_suffix b_suffix keys rows_a rows_b =
     concat (map (\<lambda>row_a.
       concat (map (\<lambda>row_b. join_two_rows a_suffix b_suffix keys row_a row_b)
         (or_empty_row rows_b)))
       (or_empty_row rows_a))"

definition LeftJoiner :: "string \<Rightarrow> string \<Rightarrow> joiner" where
  "LeftJoiner a_suffix b_suffix keys rows_a rows_b =
     concat (map (\<lambda>row_a.
       concat (map (\<lambda>row_b. join_two_rows a_suffix b_suffix keys row_a row_b)
         (or_empty_row rows_b)))
       rows_a)"

definition RightJoiner :: "string \<Rightarrow> string \<Rightarrow> joiner" where
  "RightJoiner a_suffix b_suffix keys rows_a rows_b =
     concat (map (\<lambda>row_a.
       concat (map (\<lambda>row_b. join_two_rows a_suffix b_suffix keys row_a row_b)
         (or_empty_row rows_a)))
       rows_b)"

text \<open>
  \<^verbatim>\<open>Join.__call__\<close>: both streams are grouped by \<^verbatim>\<open>groupby\<close> on the key tuple and
  walked together. The group in front of each stream is its first row and the rows
  after it that have the same key. While both streams have a group, the smaller key
  goes alone to the joiner (with the empty iterator for the other side) and its
  stream advances; equal keys go together and both streams advance. When one stream
  has ended, the groups of the other go to the joiner one by one. \<^verbatim>\<open>a > b\<close> on
  tuples is \<^verbatim>\<open>b < a\<close>. \<^verbatim>\<open>Join\<close> does not look at what the joiner yields, so the
  type of the yielded items is left open.
\<close>

function Join :: "(string list \<Rightarrow> row list \<Rightarrow> row list \<Rightarrow> 'o list) \<Rightarrow> string list \<Rightarrow>
    row list \<Rightarrow> row list \<Rightarrow> error + 'o list" where
  "Join joiner keys [] [] = Inr []"
| "Join joiner keys (l # ls) [] =
     (case key_tuple keys l of
        Inl e \<Rightarrow> Inl e
      | Inr k \<Rightarrow>
          yield_from (Inr (joiner keys (l # takeWhile (same_key keys k) ls) []))
            (Join joiner keys (dropWhile (same_key keys k) ls) []))"
| "Join joiner keys [] (r # rs) =
     (case key_tuple keys r of
        Inl e \<Rightarrow> Inl e
      | Inr k \<Rightarrow>
          yield_from (Inr (joiner keys [] (r # takeWhile (same_key keys k) rs)))
            (Join joiner keys [] (dropWhile (same_key keys k) rs)))"
| "Join joiner keys (l # ls) (r # rs) =
     (case key_tuple keys l of
        Inl e \<Rightarrow> Inl e
      | Inr k1 \<Rightarrow>
     (case key_tuple keys r of
        Inl e \<Rightarrow> Inl e
      | Inr k2 \<Rightarrow>
     (case tuple_lt k1 k2 of
        Inl e \<Rightarrow> Inl e
      | Inr True \<Rightarrow>
          yield_from (Inr (joiner keys (l # takeWhile (same_key keys k1) ls) []))
            (Join joiner keys (dropWhile (same_key keys k1) ls) (r # rs))
      | Inr False \<Rightarrow>
     (case tuple_lt k2 k1 of
        Inl e \<Rightarrow> Inl e
      | Inr True \<Rightarrow>
          yield_from (Inr (joiner keys [] (r # takeWhile (same_key keys k2) rs)))
            (Join joiner keys (l # ls) (dropWhile (same_key keys k2) rs))
      | Inr False \<Rightarrow>
          yield_from
            (Inr (joiner keys (l # takeWhile (same_key keys k1) ls)
                    (r # takeWhile (same_key keys k2) rs)))
            (Join joiner keys (dropWhile (same_key keys k1) ls)
               (dropWhile (same_key keys k2) rs))))))"
  by pat_completeness auto
termination
  by (relation "measure (\<lambda>(joiner, keys, ls, rs). length ls + length rs)")
     (auto simp: less_Suc_eq_le length_dropWhile_le intro!: le_SucI add_le_mono)

section \<open>ExternalSort\<close>

text \<open>
  \<^verbatim>\<open>itemgetter(*keys)\<close>: with no key the constructor raises \<^verbatim>\<open>TypeError\<close>; with one
  key the getter returns the value of that column; with several it returns the tuple
  of the values.
\<close>

datatype sortkey = Item val | Items "val list"

definition itemgetter :: "string list \<Rightarrow> error + (row \<Rightarrow> error + sortkey)" where
  "itemgetter keys =
     (case keys of
        [] \<Rightarrow> Inl TypeError
      | [key] \<Rightarrow> Inr (\<lambda>r. case getitem r key of Inl e \<Rightarrow> Inl e | Inr v \<Rightarrow> Inr (Item v))
      | _ \<Rightarrow> Inr (\<lambda>r. case key_tuple keys r of Inl e \<Rightarrow> Inl e | Inr vs \<Rightarrow> Inr (Items vs)))"

fun sortkey_lt :: "sortkey \<Rightarrow> sortkey \<Rightarrow> error + bool" where
  "sortkey_lt (Item a) (Item b) = py_lt a b"
| "sortkey_lt (Items a) (Items b) = tuple_lt a b"
| "sortkey_lt a b = Inl TypeError"

text \<open>
  \<^verbatim>\<open>list.sort(key=..., reverse=...)\<close>. The keys of all rows are computed first. The
  sort is stable and compares keys with \<^verbatim>\<open><\<close> only; it is modelled as an insertion
  sort, which takes the rows from the last to the first and puts each one behind the
  rows already placed whose key is smaller. With
  \<^verbatim>\<open>reverse\<close> the list is reversed, sorted and reversed again. A comparison that
  raises ends the sort. (CPython's merge sort may compare other pairs of rows than the
  insertion sort: the two agree whenever no comparison raises, and on lists of two
  rows.)
\<close>

primrec decorate :: "(row \<Rightarrow> error + sortkey) \<Rightarrow> row list \<Rightarrow> error + (sortkey \<times> row) list" where
  "decorate f [] = Inr []"
| "decorate f (r # rs) =
     (case f r of
        Inl e \<Rightarrow> Inl e
      | Inr k \<Rightarrow> (case decorate f rs of Inl e \<Rightarrow> Inl e | Inr ds \<Rightarrow> Inr ((k, r) # ds)))"

primrec insort_lt :: "sortkey \<times> row \<Rightarrow> (sortkey \<times> row) list \<Rightarrow> error + (sortkey \<times> row) list" where
  "insort_lt x [] = Inr [x]"
| "insort_lt x (y # ys) =
     (case sortkey_lt (fst y) (fst x) of
        Inl e \<Rightarrow> Inl e
      | Inr True \<Rightarrow> (case insort_lt x ys of Inl e \<Rightarrow> Inl e | Inr zs \<Rightarrow> Inr (y # zs))
      | Inr False \<Rightarrow> Inr (x # y # ys))"

primrec sort_lt :: "(sortkey \<times> row) list \<Rightarrow> error + (sortkey \<times> row) list" where
  "sort_lt [] = Inr []"
| "sort_lt (x # xs) = (case sort_lt xs of Inl e \<Rightarrow> Inl e | Inr ys \<Rightarrow> insort_lt x ys)"

definition list_sort :: "(row \<Rightarrow> error + sortkey) \<Rightarrow> bool \<Rightarrow> row list \<Rightarrow> rows" where
  "list_sort f reverse rs =
     (case decorate f rs of
        Inl e \<Rightarrow> Inl e
      | Inr ds \<Rightarrow>
          (case sort_lt (if reverse then rev ds else ds) of
             Inl e \<Rightarrow> Inl e
           | Inr ys \<Rightarrow> Inr (map snd (if reverse then rev ys else ys))))"

text \<open>
  \<^verbatim>\<open>do_sort\<close>, the helper process: it receives rows up to the sentinel \<^verbatim>\<open>None\<close>,
  sorts them and sends them back, followed by the sentinel. The argument is the list
  of the rows received; the result is the list of the rows sent back, or the exception
  that ends the helper before it has sent anything.
\<close>

definition do_sort :: "row list \<Rightarrow> string list \<Rightarrow> bool \<Rightarrow> rows" where
  "do_sort received keys reverse =
     (case itemgetter keys of
        Inl e \<Rightarrow> Inl e
      | Inr f \<Rightarrow> list_sort f reverse received)"

text \<open>
  \<^verbatim>\<open>ExternalSort.__call__\<close>, the driver: it sends every row of its input and the
  sentinel, then yields what it receives up to the sentinel, counts both and asserts
  that the counts are equal. The pipe delivers the messages in the order sent. When
  the helper has died, no sentinel ever arrives (the driver itself keeps the far end
  of the pipe open, so there is no end of file either), and \<^verbatim>\<open>recv\<close> does not
  return.
\<close>

definition ExternalSort :: "string list \<Rightarrow> bool \<Rightarrow> row list \<Rightarrow> rows" where
  "ExternalSort keys reverse rs =
     (case do_sort rs keys reverse of
        Inl e \<Rightarrow> Inl Blocked
      | Inr sent_back \<Rightarrow>
          if length rs = length sent_back then Inr sent_back else Inl AssertionError)"

section \<open>The graph\<close>

text \<open>
  The operation of a node. \<open>OpReadIterFactory\<close> and \<open>OpRead\<close> are the two
  sources.
\<close>

datatype Operation =
    OpReadIterFactory string
  | OpRead string "string \<Rightarrow> row"
  | OpMap mapper
  | OpReduce reducer "string list"
  | OpExternalSort "string list" bool
  | OpJoin joiner "string list"

type_synonym tOperation = "Operation option"

text \<open>
  A \<^verbatim>\<open>Graph\<close> object has the two attributes \<^verbatim>\<open>_operation\<close> and \<^verbatim>\<open>_input\<close>.
  Objects live in a store: a node is the address of its object (its index in the
  list), and \<^verbatim>\<open>_input\<close> holds addresses. \<^verbatim>\<open>Graph()\<close> allocates the next address;
  \<^verbatim>\<open>__init__\<close> makes the new object its own only input and gives it no operation.
\<close>

record Graph =
  operation :: tOperation
  input :: "nat list"

type_synonym store = "Graph list"

definition Graph_init :: "store \<Rightarrow> store \<times> nat" where
  "Graph_init h = (h @ [\<lparr>operation = None, input = [length h]\<rparr>], length h)"

definition set_operation :: "store \<Rightarrow> nat \<Rightarrow> tOperation \<Rightarrow> store" where
  "set_operation h graph op = h[graph := (h ! graph)\<lparr>operation := op\<rparr>]"

definition set_input :: "store \<Rightarrow> nat \<Rightarrow> nat list \<Rightarrow> store" where
  "set_input h graph inp = h[graph := (h ! graph)\<lparr>input := inp\<rparr>]"

text \<open>
  The builders, each as the source has it: \<^verbatim>\<open>graph = Graph()\<close>, the assignment to
  \<^verbatim>\<open>graph._operation\<close>, the assignment to \<^verbatim>\<open>graph._input\<close>,
  \<^verbatim>\<open>return graph\<close>. They return the new store and the new node.
\<close>

definition graph_from_iter :: "store \<Rightarrow> string \<Rightarrow> store \<times> nat" where
  "graph_from_iter h name =
     (let (h1, graph) = Graph_init h;
          h2 = set_operation h1 graph (Some (OpReadIterFactory name));
          h3 = set_input h2 graph []
      in (h3, graph))"

definition graph_from_file :: "store \<Rightarrow> string \<Rightarrow> (string \<Rightarrow> row) \<Rightarrow> store \<times> nat" where
  "graph_from_file h filename parser =
     (let (h1, graph) = Graph_init h;
          h2 = set_operation h1 graph (Some (OpRead filename parser));
          h3 = set_input h2 graph []
      in (h3, graph))"

definition Graph_map :: "store \<Rightarrow> nat \<Rightarrow> mapper \<Rightarrow> store \<times> nat" where
  "Graph_map h self mapper =
     (let (h1, graph) = Graph_init h;
          h2 = set_operation h1 graph (Some (OpMap mapper));
          h3 = set_input h2 graph [self]
      in (h3, graph))"

definition Graph_reduce :: "store \<Rightarrow> nat \<Rightarrow> reducer \<Rightarrow> string list \<Rightarrow> store \<times> nat" where
  "Graph_reduce h self reducer keys =
     (let (h1, graph) = Graph_init h;
          h2 = set_operation h1 graph (Some (OpReduce reducer keys));
          h3 = set_input h2 graph [self]
      in (h3, graph))"

definition Graph_sort :: "store \<Rightarrow> nat \<Rightarrow> string list \<Rightarrow> bool \<Rightarrow> store \<times> nat" where
  "Graph_sort h self keys reverse =
     (let (h1, graph) = Graph_init h;
          h2 = set_operation h1 graph (Some (OpExternalSort keys reverse));
          h3 = set_input h2 graph [self]
      in (h3, graph))"

definition Graph_join :: "store \<Rightarrow> nat \<Rightarrow> joiner \<Rightarrow> nat \<Rightarrow> string list \<Rightarrow> store \<times> nat" where
  "Graph_join h self joiner join_graph keys =
     (let (h1, graph) = Graph_init h;
          h2 = set_operation h1 graph (Some (OpJoin joiner keys));
          h3 = set_input h2 graph [self, join_graph]
      in (h3, graph))"

text \<open>
  Modelled from the spec: the two source operations \<^verbatim>\<open>ReadIterFactory\<close> and
  \<^verbatim>\<open>Read\<close>, whose file is not among the sources. An iter-source pulls the
  iterable passed to \<^verbatim>\<open>run\<close> under its name, and a missing name is an error; a
  file-source reads the file line by line and applies the parser to each line.
  \<open>kw\<close> are the keyword arguments, \<open>fs\<close> maps a file name to the lines of
  the file.
\<close>

definition ReadIterFactory :: "string \<Rightarrow> (string \<Rightarrow> row list option) \<Rightarrow> rows" where
  "ReadIterFactory name kw = (case kw name of None \<Rightarrow> Inl KeyError | Some rs \<Rightarrow> Inr rs)"

definition Read :: "string \<Rightarrow> (string \<Rightarrow> row) \<Rightarrow> (string \<Rightarrow> string list option) \<Rightarrow> rows" where
  "Read filename parser fs =
     (case fs filename of None \<Rightarrow> Inl FileNotFoundError | Some ls \<Rightarrow> Inr (map parser ls))"

text \<open>
  Calling an operation with positional streams \<open>args\<close> and keyword arguments
  \<open>kw\<close>. \<^verbatim>\<open>Map\<close>, \<^verbatim>\<open>Reduce\<close>, \<^verbatim>\<open>ExternalSort\<close> and \<^verbatim>\<open>Join\<close> have the
  signature \<^verbatim>\<open>__call__(self, rows, *args, **kwargs)\<close>: they take the first stream
  and raise \<^verbatim>\<open>TypeError\<close> when there is none; \<^verbatim>\<open>Join\<close> asserts that a second
  stream follows. An input stream is drained before the operation is applied to its
  rows, so an exception of an input stream is the exception of the result.
\<close>

definition rows_arg :: "rows list \<Rightarrow> (string \<Rightarrow> row list option) \<Rightarrow> rows" where
  "rows_arg args kw =
     (case args of
        stream # _ \<Rightarrow> stream
      | [] \<Rightarrow> (case kw ''rows'' of None \<Rightarrow> Inl TypeError | Some rs \<Rightarrow> Inr rs))"

fun call :: "Operation \<Rightarrow> (string \<Rightarrow> string list option) \<Rightarrow> rows list \<Rightarrow>
    (string \<Rightarrow> row list option) \<Rightarrow> rows" where
  "call (OpReadIterFactory name) fs args kw = ReadIterFactory name kw"
| "call (OpRead filename parser) fs args kw = Read filename parser fs"
| "call (OpMap mapper) fs args kw =
     (case rows_arg args kw of Inl e \<Rightarrow> Inl e | Inr rs \<Rightarrow> Map mapper rs)"
| "call (OpReduce reducer keys) fs args kw =
     (case rows_arg args kw of Inl e \<Rightarrow> Inl e | Inr rs \<Rightarrow> Reduce reducer keys rs)"
| "call (OpExternalSort keys reverse) fs args kw =
     (case rows_arg args kw of Inl e \<Rightarrow> Inl e | Inr rs \<Rightarrow> ExternalSort keys reverse rs)"
| "call (OpJoin joiner keys) fs args kw =
     (case rows_arg args kw of
        Inl e \<Rightarrow> Inl e
      | Inr ls \<Rightarrow>
          (case drop 1 args of
             [] \<Rightarrow> Inl AssertionError
           | Inl e # _ \<Rightarrow> Inl e
           | Inr rs # _ \<Rightarrow> Join joiner keys ls rs))"

text \<open>
  \<^verbatim>\<open>Graph.run\<close>. The recursion follows \<^verbatim>\<open>_input\<close>, which can be cyclic (a fresh
  \<^verbatim>\<open>Graph()\<close> is its own input), so the function takes the depth of calls it may
  use: \<open>None\<close> means that this depth was not enough. A source is called with the
  keyword arguments of \<^verbatim>\<open>run\<close>, every other operation with the streams of its
  inputs only. Calling the missing operation of a source raises \<^verbatim>\<open>TypeError\<close>
  (\<^verbatim>\<open>None\<close> is not callable). An address outside the store gives \<open>None\<close>; a
  Python reference always has an object.
\<close>

fun Graph_run :: "nat \<Rightarrow> (string \<Rightarrow> string list option) \<Rightarrow> store \<Rightarrow> nat \<Rightarrow>
    (string \<Rightarrow> row list option) \<Rightarrow> rows option" where
  "Graph_run 0 fs h self kwargs = None"
| "Graph_run (Suc n) fs h self kwargs =
     (if length h \<le> self then None
      else if input (h ! self) = [] then
        (case operation (h ! self) of
           None \<Rightarrow> Some (Inl TypeError)
         | Some op \<Rightarrow> Some (call op fs [] kwargs))
      else
        (case operation (h ! self) of
           Some op \<Rightarrow>
             (case Graph_run n fs h (input (h ! self) ! 0) kwargs of
                None \<Rightarrow> None
              | Some stream \<Rightarrow>
                  if length (input (h ! self)) < 2 then Some (call op fs [stream] Map.empty)
                  else
                    (case Graph_run n fs h (input (h ! self) ! 1) kwargs of
                       None \<Rightarrow> None
                     | Some stream2 \<Rightarrow> Some (call op fs [stream, stream2] Map.empty)))
         | None \<Rightarrow> Some (Inl Exception)))"

text \<open>
  What it means for a builder that turns the store \<open>h\<close> into \<open>h'\<close> to return a new
  node \<open>graph\<close> on top of the receiver \<open>self\<close>: the node is a fresh address, the
  old store is the new one without its last object, the receiver is among the inputs
  of the new node, and the two attributes of the receiver are what they were.
  A store is closed when every input of every node is a node of the store.
\<close>

definition builds_on :: "store \<Rightarrow> nat \<Rightarrow> store \<times> nat \<Rightarrow> bool" where
  "builds_on h self res =
     (case res of (h', graph) \<Rightarrow>
        graph = length h \<and> length h' = Suc (length h) \<and> take (length h) h' = h
        \<and> self \<in> set (input (h' ! graph))
        \<and> operation (h' ! self) = operation (h ! self)
        \<and> input (h' ! self) = input (h ! self))"

definition closed_store :: "store \<Rightarrow> bool" where
  "closed_store h = list_all (\<lambda>g. list_all (\<lambda>i. i < length h) (input g)) h"

text \<open>
  The notions that the properties of \<open>Reduce\<close> are stated with. A row has the keys when its key
  tuple can be taken. A run is a list of rows, not empty, that all have the key tuple
  of the first one. A list of runs is a list of maximal runs when the first row of
  each run has another key tuple than the run before it. The row that \<open>Count\<close>
  owes to a run has the count column and the key columns and no other, holds the
  number of rows of the run in the count column, and in each key column what the
  rows of the run hold there.
\<close>

definition has_keys :: "string list \<Rightarrow> row \<Rightarrow> bool" where
  "has_keys keys r = (case key_tuple keys r of Inl e \<Rightarrow> False | Inr k \<Rightarrow> True)"

definition is_run :: "string list \<Rightarrow> row list \<Rightarrow> bool" where
  "is_run keys g =
     (g \<noteq> [] \<and> has_keys keys (hd g)
      \<and> list_all (\<lambda>r. key_tuple keys r = key_tuple keys (hd g)) g)"

fun maximal_runs :: "string list \<Rightarrow> row list list \<Rightarrow> bool" where
  "maximal_runs keys [] = True"
| "maximal_runs keys [g] = is_run keys g"
| "maximal_runs keys (g # g' # gs) =
     (is_run keys g \<and> g' \<noteq> [] \<and> key_tuple keys (hd g') \<noteq> key_tuple keys (hd g)
      \<and> maximal_runs keys (g' # gs))"

definition is_count_row :: "string list \<Rightarrow> string \<Rightarrow> row list \<Rightarrow> row \<Rightarrow> bool" where
  "is_count_row keys column g out =
     (set (columns out) = insert column (set keys) \<and> distinct (columns out)
      \<and> map_of out column = Some (VInt (int (length g)))
      \<and> list_all (\<lambda>k. map_of out k = map_of (hd g) k) keys)"

text \<open>
  The notions that the properties of \<open>Join\<close> are stated with. \<open>joiner_calls\<close> is the walk of
  \<open>Join\<close> with a joiner that yields its two arguments: the list of the pairs of
  groups that the joiner is called with, in order. A call touches a key when one of
  its rows has that key. A stream is key-sorted when its rows have the keys and no
  row comes before a row with a smaller key tuple: of two rows, the later one has the
  same key tuple as the earlier one or a greater one under Python's \<^verbatim>\<open><\<close>. Two
  rows are comparable when \<^verbatim>\<open><\<close> between their key tuples does not raise. A row
  is a well-formed dict when no column occurs twice.
\<close>

definition joiner_calls :: "string list \<Rightarrow> row list \<Rightarrow> row list \<Rightarrow> error + (row list \<times> row list) list" where
  "joiner_calls keys ls rs = Join (\<lambda>keys rows_a rows_b. [(rows_a, rows_b)]) keys ls rs"

definition touches :: "string list \<Rightarrow> val list \<Rightarrow> row list \<times> row list \<Rightarrow> bool" where
  "touches keys k c = list_ex (same_key keys k) (fst c @ snd c)"

definition key_le :: "string list \<Rightarrow> row \<Rightarrow> row \<Rightarrow> bool" where
  "key_le keys a b =
     (case (key_tuple keys a, key_tuple keys b) of
        (Inr ka, Inr kb) \<Rightarrow> ka = kb \<or> tuple_lt ka kb = Inr True
      | _ \<Rightarrow> False)"

definition key_sorted :: "string list \<Rightarrow> row list \<Rightarrow> bool" where
  "key_sorted keys rs = (list_all (has_keys keys) rs \<and> sorted_wrt (key_le keys) rs)"

definition comparable :: "string list \<Rightarrow> row \<Rightarrow> row \<Rightarrow> bool" where
  "comparable keys a b =
     (case (key_tuple keys a, key_tuple keys b) of
        (Inr ka, Inr kb) \<Rightarrow> (case tuple_lt ka kb of Inl e \<Rightarrow> False | Inr c \<Rightarrow> True)
      | _ \<Rightarrow> False)"

definition wf_row :: "row \<Rightarrow> bool" where
  "wf_row r = distinct (columns r)"

text \<open>
  The call that the key \<open>k\<close> is owed: none when no row of either stream has the
  key, else the one call with all rows of the left stream that have the key and all
  rows of the right stream that have it.
\<close>

definition group_call :: "string list \<Rightarrow> val list \<Rightarrow> row list \<Rightarrow> row list \<Rightarrow> (row list \<times> row list) list" where
  "group_call keys k ls rs =
     (if filter (same_key keys k) ls = [] \<and> filter (same_key keys k) rs = [] then []
      else [(filter (same_key keys k) ls, filter (same_key keys k) rs)])"

text \<open>
  The notions that the property of \<open>ExternalSort\<close> is stated with. \<open>key_of keys r\<close> is the sort key
  of the row, \<^verbatim>\<open>itemgetter(*keys)(r)\<close>, and \<open>key_lt keys a b\<close> is Python's
  \<^verbatim>\<open><\<close> between the sort keys of two rows. Two rows are sort-comparable when that
  comparison does not raise.
\<close>

definition key_of :: "string list \<Rightarrow> row \<Rightarrow> error + sortkey" where
  "key_of keys r = (case itemgetter keys of Inl e \<Rightarrow> Inl e | Inr f \<Rightarrow> f r)"

definition key_lt :: "string list \<Rightarrow> row \<Rightarrow> row \<Rightarrow> error + bool" where
  "key_lt keys a b =
     (case key_of keys a of
        Inl e \<Rightarrow> Inl e
      | Inr ka \<Rightarrow> (case key_of keys b of Inl e \<Rightarrow> Inl e | Inr kb \<Rightarrow> sortkey_lt ka kb))"

definition sort_comparable :: "string list \<Rightarrow> row \<Rightarrow> row \<Rightarrow> bool" where
  "sort_comparable keys a b = (case key_lt keys a b of Inl e \<Rightarrow> False | Inr c \<Rightarrow> True)"

text \<open>
  The key columns of a list of rows are typed when every row has every key column and
  each key column holds an integer in every row, or a string in every row. One column
  may hold integers and another one strings; no column holds \<^verbatim>\<open>None\<close>, and none
  holds integers in some rows and strings in others.
\<close>

definition holds_int :: "string \<Rightarrow> row \<Rightarrow> bool" where
  "holds_int key r = (case getitem r key of Inr (VInt i) \<Rightarrow> True | _ \<Rightarrow> False)"

definition holds_str :: "string \<Rightarrow> row \<Rightarrow> bool" where
  "holds_str key r = (case getitem r key of Inr (VStr s) \<Rightarrow> True | _ \<Rightarrow> False)"

definition typed_column :: "row list \<Rightarrow> string \<Rightarrow> bool" where
  "typed_column rs key = (list_all (holds_int key) rs \<or> list_all (holds_str key) rs)"

definition typed_keys :: "string list \<Rightarrow> row list \<Rightarrow> bool" where
  "typed_keys keys rs = list_all (typed_column rs) keys"

text \<open>
  For the proofs: an injective map from sort keys into a linear order that agrees with
  Python's \<^verbatim>\<open><\<close> wherever \<^verbatim>\<open><\<close> does not raise.
\<close>

fun enc_val :: "val \<Rightarrow> nat \<times> int \<times> string" where
  "enc_val VNone = (0, 0, [])"
| "enc_val (VInt i) = (1, i, [])"
| "enc_val (VStr s) = (2, 0, s)"

fun enc_key :: "sortkey \<Rightarrow> nat \<times> (nat \<times> int \<times> string) list" where
  "enc_key (Item v) = (0, [enc_val v])"
| "enc_key (Items vs) = (1, map enc_val vs)"

section \<open>Facts about rows\<close>

lemma map_of_setitem: "map_of (setitem r c v) = (map_of r)(c \<mapsto> v)"
  by (induction r) (auto simp: fun_eq_iff)

lemma columns_setitem:
  "columns (setitem r c v) = (if c \<in> set (columns r) then columns r else columns r @ [c])"
  by (induction r) (auto simp: columns_def)

lemma setitem_same: "map_of r c = Some v \<Longrightarrow> setitem r c v = r"
  by (induction r) (auto split: if_splits)

lemma contains_iff: "contains r c \<longleftrightarrow> map_of r c \<noteq> None"
  by (simp add: contains_def columns_def map_of_eq_None_iff)

lemma columns_Nil: "columns [] = []"
  by (simp add: columns_def)

section \<open>Facts about Project\<close>

lemma map_of_project_fold:
  "map_of (fold (\<lambda>column d. setitem d column (f column)) cols d) c =
     (if c \<in> set cols then Some (f c) else map_of d c)"
  by (induction cols arbitrary: d) (auto simp: map_of_setitem)

lemma set_columns_project_fold:
  "set (columns (fold (\<lambda>column d. setitem d column (f column)) cols d)) =
     set (columns d) \<union> set cols"
  by (induction cols arbitrary: d) (auto simp: columns_setitem)

lemma columns_project_fold:
  "columns (fold (\<lambda>column d. setitem d column (f column)) cols []) = rev (remdups (rev cols))"
proof (induction cols rule: rev_induct)
  case Nil
  show ?case by (simp add: columns_def)
next
  case (snoc c cols)
  then show ?case
    using set_columns_project_fold [of f cols "[]"] columns_Nil
    by (auto simp: columns_setitem)
qed

lemma rev_remdups_rev_distinct: "distinct xs \<Longrightarrow> rev (remdups (rev xs)) = xs"
  by (simp add: distinct_remdups_id)

lemma Project_Project:
  "Project cols (fold (\<lambda>column d. setitem d column (f column)) cols []) =
     Inr [fold (\<lambda>column d. setitem d column (f column)) cols []]"
  unfolding Project_def
  by (auto intro!: fold_cong simp: contains_iff map_of_project_fold)

lemma Map_Project:
  "\<exists>ps. Map (Project cols) rs = Inr ps \<and> Map (Project cols) ps = Inr ps"
proof (induction rs)
  case Nil
  show ?case by simp
next
  case (Cons r rs)
  then obtain ps where ps: "Map (Project cols) rs = Inr ps" "Map (Project cols) ps = Inr ps"
    by blast
  obtain p where p: "Project cols r = Inr [p]" "Project cols p = Inr [p]"
    using Project_Project by (auto simp: Project_def)
  show ?case using ps p by simp
qed

section \<open>Project (C6, C8)\<close>

text \<open>
  C6. For every row and every list of requested columns, \<open>Project\<close> emits exactly one
  row. Its columns are the requested ones in the order requested: a row is a dict, so
  a name requested more than once is one column, at the place of its first request
  (\<open>rev (remdups (rev cols))\<close> keeps the first occurrence of each name); when no name
  is repeated the column list is \<open>cols\<close> itself. A requested column has the value it
  has in the input row, and null when the input row lacks it. No other column is
  present.
\<close>

theorem Project_exactly_cols:
  "\<exists>out. Project cols r = Inr [out]
     \<and> columns out = rev (remdups (rev cols))
     \<and> (distinct cols \<longrightarrow> columns out = cols)
     \<and> (\<forall>c \<in> set cols.
          map_of out c = Some (case map_of r c of Some v \<Rightarrow> v | None \<Rightarrow> VNone))
     \<and> (\<forall>c. c \<notin> set cols \<longrightarrow> map_of out c = None)"
  unfolding Project_def
  by (auto simp: columns_project_fold rev_remdups_rev_distinct map_of_project_fold contains_iff
           split: option.splits)

theorem Project_exactly_cols_witness:
  "Project [''b'', ''z'', ''a''] [(''a'', VInt 1), (''b'', VStr ''x''), (''c'', VInt 3)]
     = Inr [[(''b'', VStr ''x''), (''z'', VNone), (''a'', VInt 1)]]
   \<and> distinct [''b'', ''z'', ''a'']"
  using Project_exactly_cols
    [of "[''b'', ''z'', ''a'']" "[(''a'', VInt 1), (''b'', VStr ''x''), (''c'', VInt 3)]"]
  by (simp add: Project_def contains_def columns_def)

text \<open>
  C8. \<open>Project\<close> is idempotent: applied to the one row it has produced, \<open>Project cols\<close>
  yields that row again; and mapping \<open>Project cols\<close> over the stream that
  \<open>Map (Project cols)\<close> has produced gives that stream again.
\<close>

theorem Project_idempotent:
  "(\<exists>p. Project cols r = Inr [p] \<and> Project cols p = Inr [p])
   \<and> (\<exists>ps. Map (Project cols) rs = Inr ps \<and> Map (Project cols) ps = Inr ps)"
  using Project_Project Map_Project by (auto simp: Project_def)

lemma getitem_Inr: "getitem r c = Inr v \<longleftrightarrow> map_of r c = Some v"
  by (simp add: getitem_def split: option.splits)

lemma columns_setitem_present: "map_of r c = Some v \<Longrightarrow> columns (setitem r c w) = columns r"
proof -
  assume "map_of r c = Some v"
  then have "c \<in> set (columns r)"
    unfolding columns_def by (metis map_of_eq_None_iff option.distinct(1) image_set)
  then show ?thesis by (simp add: columns_setitem)
qed

section \<open>Facts about Split\<close>

lemma concat_split_W: "concat (split_W cs tok sep) = tok @ filter is_word cs"
  by (induction cs arbitrary: tok sep) auto

lemma re_split_words: "word \<in> set (re_split s) \<Longrightarrow> c \<in> set word \<Longrightarrow> is_word c"
proof -
  assume w: "word \<in> set (re_split s)" and c: "c \<in> set word"
  then have "c \<in> set (concat (re_split s))" by auto
  then show "is_word c" by (simp add: re_split_def concat_split_W)
qed

lemma Split_on_string:
  assumes "getitem r column = Inr (VStr s)"
  shows "Split column sep r = Inr (map (\<lambda>word. setitem r column (VStr word)) (re_split s))"
  using assms by (simp add: Split_def)

lemma Split_not_string:
  assumes "\<forall>s. getitem r column \<noteq> Inr (VStr s)"
  shows "\<exists>e. Split column sep r = Inl e"
  using assms by (auto simp: Split_def split: sum.splits val.splits)

lemma re_split_example: "re_split ''a, b.'' = [''a'', ''b'', '''']"
  by (simp add: re_split_def is_word_def)

section \<open>Split (C10)\<close>

text \<open>
  C10. \<open>Split\<close> ignores its separator: with any two separator arguments it gives
  the same result on every row. On a row whose column holds the string \<open>s\<close> it emits
  one row per token of \<open>re_split s\<close>, in order, each with the column set to the
  token and every other column, and the order of the columns, as in the input row. The
  tokens are what is left of \<open>s\<close> between the runs of non-word characters: they hold
  word characters only and, put together, they are the word characters of \<open>s\<close>. On
  a row whose column is missing or holds no string, \<open>Split\<close> raises, whatever the
  separator.
\<close>

theorem Split_ignores_separator:
  "Split column sep1 r = Split column sep2 r
   \<and> (getitem r column = Inr (VStr s) \<longrightarrow>
        (\<exists>out. Split column sep1 r = Inr out
           \<and> map (\<lambda>new_row. map_of new_row column) out = map (\<lambda>word. Some (VStr word)) (re_split s)
           \<and> (\<forall>new_row \<in> set out. columns new_row = columns r
                 \<and> (\<forall>c. c \<noteq> column \<longrightarrow> map_of new_row c = map_of r c))
           \<and> concat (re_split s) = filter is_word s
           \<and> (\<forall>word \<in> set (re_split s). \<forall>c \<in> set word. is_word c)))
   \<and> ((\<forall>s. getitem r column \<noteq> Inr (VStr s)) \<longrightarrow> (\<exists>e. Split column sep1 r = Inl e))"
proof (intro conjI impI)
  show "Split column sep1 r = Split column sep2 r"
    by (simp add: Split_def)
next
  assume g: "getitem r column = Inr (VStr s)"
  let ?out = "map (\<lambda>word. setitem r column (VStr word)) (re_split s)"
  have 1: "Split column sep1 r = Inr ?out"
    using g by (rule Split_on_string)
  have 2: "map (\<lambda>new_row. map_of new_row column) ?out = map (\<lambda>word. Some (VStr word)) (re_split s)"
    by (simp add: map_of_setitem comp_def)
  have 3: "\<forall>new_row \<in> set ?out. columns new_row = columns r
                 \<and> (\<forall>c. c \<noteq> column \<longrightarrow> map_of new_row c = map_of r c)"
    using g by (auto simp: getitem_Inr columns_setitem_present map_of_setitem)
  have 4: "concat (re_split s) = filter is_word s"
    by (simp add: re_split_def concat_split_W)
  have 5: "\<forall>word \<in> set (re_split s). \<forall>c \<in> set word. is_word c"
    using re_split_words by blast
  show "\<exists>out. Split column sep1 r = Inr out
           \<and> map (\<lambda>new_row. map_of new_row column) out = map (\<lambda>word. Some (VStr word)) (re_split s)
           \<and> (\<forall>new_row \<in> set out. columns new_row = columns r
                 \<and> (\<forall>c. c \<noteq> column \<longrightarrow> map_of new_row c = map_of r c))
           \<and> concat (re_split s) = filter is_word s
           \<and> (\<forall>word \<in> set (re_split s). \<forall>c \<in> set word. is_word c)"
    using 1 2 3 4 5 by blast
next
  assume "\<forall>s. getitem r column \<noteq> Inr (VStr s)"
  then show "\<exists>e. Split column sep1 r = Inl e" by (rule Split_not_string)
qed

theorem Split_ignores_separator_witness:
  "getitem [(''text'', VStr ''a, b.''), (''n'', VInt 1)] ''text'' = Inr (VStr ''a, b.'')
   \<and> Split ''text'' (Some '','') [(''text'', VStr ''a, b.''), (''n'', VInt 1)]
       = Inr [[(''text'', VStr ''a''), (''n'', VInt 1)],
              [(''text'', VStr ''b''), (''n'', VInt 1)],
              [(''text'', VStr ''''), (''n'', VInt 1)]]
   \<and> Split ''text'' (Some '','') [(''text'', VStr ''a, b.''), (''n'', VInt 1)]
       = Split ''text'' None [(''text'', VStr ''a, b.''), (''n'', VInt 1)]
   \<and> (\<forall>s. getitem [(''text'', VInt 3)] ''text'' \<noteq> Inr (VStr s))
   \<and> Split ''text'' None [(''text'', VInt 3)] = Inl TypeError"
proof -
  have g: "getitem [(''text'', VStr ''a, b.''), (''n'', VInt 1)] ''text'' = Inr (VStr ''a, b.'')"
    by (simp add: getitem_def)
  have n: "\<forall>s. getitem [(''text'', VInt 3)] ''text'' \<noteq> Inr (VStr s)"
    by (simp add: getitem_def)
  have e: "Split ''text'' (Some '','') [(''text'', VStr ''a, b.''), (''n'', VInt 1)]
       = Split ''text'' None [(''text'', VStr ''a, b.''), (''n'', VInt 1)]"
    using Split_ignores_separator
      [of "''text''" "Some '',''" "[(''text'', VStr ''a, b.''), (''n'', VInt 1)]" None "''a, b.''"]
    by blast
  have v: "Split ''text'' (Some '','') [(''text'', VStr ''a, b.''), (''n'', VInt 1)]
       = Inr [[(''text'', VStr ''a''), (''n'', VInt 1)],
              [(''text'', VStr ''b''), (''n'', VInt 1)],
              [(''text'', VStr ''''), (''n'', VInt 1)]]"
    by (simp add: Split_def getitem_def re_split_example)
  have t: "Split ''text'' None [(''text'', VInt 3)] = Inl TypeError"
    by (simp add: Split_def getitem_def)
  show ?thesis using g n e v t by blast
qed

section \<open>Facts about the graph\<close>

lemma Graph_map_eq:
  "Graph_map h self mapper = (h @ [\<lparr>operation = Some (OpMap mapper), input = [self]\<rparr>], length h)"
  by (simp add: Graph_map_def Graph_init_def set_operation_def set_input_def)

lemma Graph_reduce_eq:
  "Graph_reduce h self reducer keys =
     (h @ [\<lparr>operation = Some (OpReduce reducer keys), input = [self]\<rparr>], length h)"
  by (simp add: Graph_reduce_def Graph_init_def set_operation_def set_input_def)

lemma Graph_sort_eq:
  "Graph_sort h self keys reverse =
     (h @ [\<lparr>operation = Some (OpExternalSort keys reverse), input = [self]\<rparr>], length h)"
  by (simp add: Graph_sort_def Graph_init_def set_operation_def set_input_def)

lemma Graph_join_eq:
  "Graph_join h self joiner join_graph keys =
     (h @ [\<lparr>operation = Some (OpJoin joiner keys), input = [self, join_graph]\<rparr>], length h)"
  by (simp add: Graph_join_def Graph_init_def set_operation_def set_input_def)

lemma Graph_run_extend:
  assumes closed: "\<forall>g \<in> set h. \<forall>i \<in> set (input g). i < length h"
  shows "self < length h \<Longrightarrow> Graph_run n fs (h @ ext) self kwargs = Graph_run n fs h self kwargs"
proof (induction n arbitrary: self)
  case 0
  show ?case by simp
next
  case (Suc n)
  let ?g = "h ! self"
  have g: "(h @ ext) ! self = ?g" using Suc.prems by (simp add: nth_append)
  have mem: "?g \<in> set h" using Suc.prems by simp
  have i0: "input ?g \<noteq> [] \<Longrightarrow> input ?g ! 0 < length h"
    using closed mem by (metis length_greater_0_conv nth_mem)
  have i1: "\<not> length (input ?g) < 2 \<Longrightarrow> input ?g ! 1 < length h"
    using closed mem by (metis not_less nth_mem less_le_trans one_less_numeral_iff semiring_norm(76))
  show ?case
    using Suc.prems g i0 i1 Suc.IH
    by (auto split: option.splits)
qed

lemma Graph_run_extend':
  assumes "closed_store h" and "self < length h"
  shows "Graph_run n fs (h @ ext) self kwargs = Graph_run n fs h self kwargs"
  using assms Graph_run_extend [of h self n fs ext kwargs]
  by (simp add: closed_store_def list_all_iff)

lemma store_example:
  "fst (graph_from_iter [] ''texts'') = [\<lparr>operation = Some (OpReadIterFactory ''texts''), input = []\<rparr>]"
  by (simp add: graph_from_iter_def Graph_init_def set_operation_def set_input_def)

section \<open>Running a node without operation (C7)\<close>

text \<open>
  C7. \<open>run\<close> on a node that has at least one input and no operation raises
  \<^verbatim>\<open>Exception\<close> at once: the call returns the exception with a depth of one, that
  is without entering \<open>run\<close> of any input (such a call would need more depth), and
  whatever the inputs, the rest of the store and the keyword arguments are. The fresh
  \<^verbatim>\<open>Graph()\<close>, which is its own input, is such a node.
\<close>

theorem run_without_operation:
  "self < length h \<Longrightarrow> input (h ! self) \<noteq> [] \<Longrightarrow> operation (h ! self) = None \<Longrightarrow>
     Graph_run (Suc n) fs h self kwargs = Some (Inl Exception)"
  by simp

theorem run_without_operation_witness:
  "(0::nat) < length (fst (Graph_init []))
   \<and> input (fst (Graph_init []) ! 0) \<noteq> []
   \<and> operation (fst (Graph_init []) ! 0) = None
   \<and> Graph_run (Suc 0) Map.empty (fst (Graph_init [])) 0 Map.empty = Some (Inl Exception)"
  using run_without_operation [of 0 "fst (Graph_init [])" 0 Map.empty Map.empty]
  by (simp add: Graph_init_def)

section \<open>The builders (C9)\<close>

text \<open>
  C9. Each of \<open>map\<close>, \<open>reduce\<close>, \<open>sort\<close> and \<open>join\<close>, called on a node
  \<open>self\<close> of the store, returns a new node that has the receiver among its inputs,
  and changes no object of the store: the operation and the input list of the receiver
  are the same before and after the call (\<open>builds_on\<close>). In a closed store, running
  the receiver after the call gives what running it before the call gives, so a node
  can be the input of several nodes and be run again.
\<close>

theorem builders_return_new_node:
  assumes "self < length h"
  shows "builds_on h self (Graph_map h self mapper)
    \<and> builds_on h self (Graph_reduce h self reducer keys)
    \<and> builds_on h self (Graph_sort h self keys reverse)
    \<and> builds_on h self (Graph_join h self joiner join_graph keys)
    \<and> (closed_store h \<longrightarrow>
         Graph_run n fs (fst (Graph_map h self mapper)) self kwargs = Graph_run n fs h self kwargs
       \<and> Graph_run n fs (fst (Graph_reduce h self reducer keys)) self kwargs
            = Graph_run n fs h self kwargs
       \<and> Graph_run n fs (fst (Graph_sort h self keys reverse)) self kwargs
            = Graph_run n fs h self kwargs
       \<and> Graph_run n fs (fst (Graph_join h self joiner join_graph keys)) self kwargs
            = Graph_run n fs h self kwargs)"
proof -
  have a: "builds_on h self (Graph_map h self mapper)"
    using assms by (simp add: Graph_map_eq builds_on_def nth_append)
  have b: "builds_on h self (Graph_reduce h self reducer keys)"
    using assms by (simp add: Graph_reduce_eq builds_on_def nth_append)
  have c: "builds_on h self (Graph_sort h self keys reverse)"
    using assms by (simp add: Graph_sort_eq builds_on_def nth_append)
  have d: "builds_on h self (Graph_join h self joiner join_graph keys)"
    using assms by (simp add: Graph_join_eq builds_on_def nth_append)
  have e: "closed_store h \<Longrightarrow> Graph_run n fs (h @ ext) self kwargs = Graph_run n fs h self kwargs"
    for ext
    using assms by (rule Graph_run_extend' [rotated])
  show ?thesis
    using a b c d e
    by (simp add: Graph_map_eq Graph_reduce_eq Graph_sort_eq Graph_join_eq)
qed

theorem builders_return_new_node_witness:
  "(0::nat) < length (fst (graph_from_iter [] ''texts''))
   \<and> closed_store (fst (graph_from_iter [] ''texts''))
   \<and> Graph_map (fst (graph_from_iter [] ''texts'')) 0 (Project [''a''])
       = ([\<lparr>operation = Some (OpReadIterFactory ''texts''), input = []\<rparr>,
           \<lparr>operation = Some (OpMap (Project [''a''])), input = [0]\<rparr>], 1)
   \<and> builds_on (fst (graph_from_iter [] ''texts'')) 0
        (Graph_map (fst (graph_from_iter [] ''texts'')) 0 (Project [''a'']))
   \<and> Graph_run 1 Map.empty (fst (Graph_map (fst (graph_from_iter [] ''texts'')) 0 (Project [''a''])))
        0 [''texts'' \<mapsto> [[(''a'', VInt 1)]]]
       = Some (Inr [[(''a'', VInt 1)]])"
proof -
  have l: "(0::nat) < length (fst (graph_from_iter [] ''texts''))"
    by (simp add: store_example)
  have c: "closed_store (fst (graph_from_iter [] ''texts''))"
    by (simp add: store_example closed_store_def)
  have r: "Graph_run 1 Map.empty (fst (graph_from_iter [] ''texts'')) 0 [''texts'' \<mapsto> [[(''a'', VInt 1)]]]
       = Some (Inr [[(''a'', VInt 1)]])"
    by (simp add: store_example ReadIterFactory_def)
  have m: "Graph_map (fst (graph_from_iter [] ''texts'')) 0 (Project [''a''])
       = ([\<lparr>operation = Some (OpReadIterFactory ''texts''), input = []\<rparr>,
           \<lparr>operation = Some (OpMap (Project [''a''])), input = [0]\<rparr>], 1)"
    by (simp add: store_example Graph_map_eq)
  show ?thesis
    using l c r m builders_return_new_node [OF l, of "Project [''a'']" "Count ''n''" "[]" False
      "InnerJoiner ''_1'' ''_2''" 0 1 Map.empty
      "[''texts'' \<mapsto> [[(''a'', VInt 1)]]]"]
    by simp
qed

section \<open>Facts about Reduce and Count\<close>

lemma Count_loop_no_keys:
  "Count_loop column [] [(column, VInt i)] rs = Inr [(column, VInt (i + int (length rs)))]"
  by (induction rs arbitrary: i) (simp_all add: Count_step_def getitem_def)

lemma same_key_Nil: "same_key [] [] r"
  by (simp add: same_key_def)

lemma takeWhile_same_key_Nil: "takeWhile (same_key [] []) rs = rs"
  by (induction rs) (simp_all add: same_key_Nil)

lemma dropWhile_same_key_Nil: "dropWhile (same_key [] []) rs = []"
  by (induction rs) (simp_all add: same_key_Nil)

lemma Reduce_Count_no_keys:
  "rs \<noteq> [] \<Longrightarrow> Reduce (Count column) [] rs = Inr [[(column, VInt (int (length rs)))]]"
  by (cases rs)
     (simp_all add: takeWhile_same_key_Nil dropWhile_same_key_Nil Count_def Count_loop_no_keys
        Count_step_def getitem_def)

section \<open>Count over the whole input (C1)\<close>

text \<open>
  C1, as amended. \<open>Reduce\<close> over the empty stream emits no row, whatever the
  reducer and the keys: \<^verbatim>\<open>groupby\<close> has no group for an empty stream, so the
  reducer is not called. With \<open>Count\<close> and the empty key list, a stream that is not
  empty is one group: the output is the one row that maps the count column to the
  number of rows.
\<close>

theorem Reduce_Count_whole_input:
  "Reduce reducer keys [] = Inr []
   \<and> (rs \<noteq> [] \<longrightarrow> Reduce (Count column) [] rs = Inr [[(column, VInt (int (length rs)))]])"
  by (simp add: Reduce_Count_no_keys)

theorem Reduce_Count_whole_input_witness:
  "[[(''a'', VInt 5)], [(''a'', VInt 7)]] \<noteq> []
   \<and> Reduce (Count ''n'') [] [[(''a'', VInt 5)], [(''a'', VInt 7)]] = Inr [[(''n'', VInt 2)]]"
  using Reduce_Count_whole_input [of "Count ''n''" "[]" "[[(''a'', VInt 5)], [(''a'', VInt 7)]]" "''n''"]
  by simp

text \<open>
  C1 as stated fails: on the empty input the pipeline \<^verbatim>\<open>.reduce(Count('n'), [])\<close>
  does not emit the row \<^verbatim>\<open>{'n': 0}\<close>.
\<close>

theorem Reduce_Count_empty_input_counterexample:
  "Reduce (Count ''n'') [] [] \<noteq> Inr [[(''n'', VInt 0)]]"
  by simp

section \<open>Facts about dicts\<close>

lemma setitem_setitem: "setitem (setitem d c v) c w = setitem d c w"
  by (induction d) auto

lemma distinct_columns_setitem: "distinct (columns d) \<Longrightarrow> distinct (columns (setitem d c v))"
  by (simp add: columns_setitem)

lemma set_columns_setitem: "set (columns (setitem d c v)) = insert c (set (columns d))"
  by (auto simp: columns_setitem)

lemma set_columns_dict_update:
  "set (columns (dict_update d other)) = set (columns d) \<union> fst ` set other"
  unfolding dict_update_def
  by (induction other arbitrary: d) (auto simp: set_columns_setitem)

lemma distinct_columns_dict_update:
  "distinct (columns d) \<Longrightarrow> distinct (columns (dict_update d other))"
  unfolding dict_update_def
  by (induction other arbitrary: d) (auto simp: distinct_columns_setitem)

lemma map_of_dict_update_other:
  "k \<notin> fst ` set other \<Longrightarrow> map_of (dict_update d other) k = map_of d k"
  unfolding dict_update_def
  by (induction other arbitrary: d) (auto simp: map_of_setitem)

lemma map_of_dict_update_in:
  "\<forall>(k, v) \<in> set other. m k = Some v \<Longrightarrow> map_of d k = m k \<or> k \<in> fst ` set other \<Longrightarrow>
     map_of (dict_update d other) k = m k"
  unfolding dict_update_def
proof (induction other arbitrary: d)
  case Nil
  then show ?case by simp
next
  case (Cons p other)
  obtain k' v' where p: "p = (k', v')" by (cases p)
  have "map_of (setitem d k' v') k = m k \<or> k \<in> fst ` set other"
    using Cons.prems p by (auto simp: map_of_setitem)
  moreover have "\<forall>(k, v) \<in> set other. m k = Some v"
    using Cons.prems by simp
  ultimately show ?case
    using Cons.IH [of "setitem d k' v'"] p by simp
qed

lemma key_tuple_zip:
  "key_tuple keys r = Inr vs \<Longrightarrow>
     length vs = length keys \<and> (\<forall>(k, v) \<in> set (zip keys vs). map_of r k = Some v)"
proof (induction keys arbitrary: vs)
  case Nil
  then show ?case by simp
next
  case (Cons key keys)
  then show ?case
    by (auto simp: getitem_def split: option.splits sum.splits)
qed

lemma fst_set_zip: "length vs = length keys \<Longrightarrow> fst ` set (zip keys vs) = set keys"
  by (metis map_fst_zip set_map)

section \<open>Facts about Count on one group\<close>

lemma Count_step_increment:
  assumes "map_of d column = Some (VInt i)" and "group_key = [] \<or> contains d (hd group_key)"
  shows "Count_step column group_key d r = Inr (setitem d column (VInt (i + 1)))"
  using assms by (auto simp: Count_step_def getitem_def)

lemma Count_loop_increment:
  assumes "map_of d column = Some (VInt i)" and "group_key = [] \<or> contains d (hd group_key)"
  shows "Count_loop column group_key d rs = Inr (setitem d column (VInt (i + int (length rs))))"
  using assms
proof (induction rs arbitrary: d i)
  case Nil
  then show ?case by (simp add: setitem_same)
next
  case (Cons r rs)
  let ?d = "setitem d column (VInt (i + 1))"
  have step: "Count_step column group_key d r = Inr ?d"
    using Cons.prems by (rule Count_step_increment)
  have m: "map_of ?d column = Some (VInt (i + 1))"
    by (simp add: map_of_setitem)
  have c: "group_key = [] \<or> contains ?d (hd group_key)"
    using Cons.prems(2) by (auto simp: contains_def set_columns_setitem)
  show ?case
    using step Cons.IH [OF m c] by (simp add: setitem_setitem add.assoc)
qed

text \<open>The dict that the first row of a group leaves in \<open>new_row\<close>.\<close>

lemma keys_dict:
  assumes "key_tuple keys r = Inr vs"
  shows "set (columns (dict_update [] (zip keys vs))) = set keys"
    and "distinct (columns (dict_update [] (zip keys vs)))"
    and "\<forall>(k, v) \<in> set (dict_update [] (zip keys vs)). map_of r k = Some v"
proof -
  let ?D = "dict_update [] (zip keys vs)"
  have len: "length vs = length keys" and z: "\<forall>(k, v) \<in> set (zip keys vs). map_of r k = Some v"
    using key_tuple_zip [OF assms] by auto
  show c: "set (columns ?D) = set keys"
    by (simp add: set_columns_dict_update fst_set_zip [OF len] columns_Nil)
  show d: "distinct (columns ?D)"
    by (rule distinct_columns_dict_update) (simp add: columns_def)
  have m: "map_of ?D k = map_of r k" if "k \<in> set keys" for k
    using map_of_dict_update_in [OF z, of "[]" k] that fst_set_zip [OF len] by simp
  show "\<forall>(k, v) \<in> set ?D. map_of r k = Some v"
  proof (clarify)
    fix k v assume kv: "(k, v) \<in> set ?D"
    then have "k \<in> set keys" using c by (force simp: columns_def)
    moreover have "map_of ?D k = Some v"
      using kv d by (simp add: columns_def)
    ultimately show "map_of r k = Some v" using m by simp
  qed
qed

lemma Count_first_row:
  assumes col: "column \<notin> set keys" and ne: "keys \<noteq> []" and kt: "key_tuple keys r = Inr vs"
  shows "\<exists>d. Count_step column keys [(column, VInt 0)] r = Inr d
           \<and> map_of d column = Some (VInt 1)
           \<and> set (columns d) = insert column (set keys)
           \<and> distinct (columns d)
           \<and> (\<forall>k \<in> set keys. map_of d k = map_of r k)"
proof -
  let ?D = "dict_update [] (zip keys vs)"
  let ?d1 = "dict_update [(column, VInt 0)] ?D"
  let ?d = "setitem ?d1 column (VInt 1)"
  note D = keys_dict [OF kt]
  have hd: "hd keys \<in> set keys" using ne by simp
  then have nc: "\<not> contains [(column, VInt 0)] (hd keys)"
    using col by (auto simp: contains_def columns_def)
  have up: "update_keys [(column, VInt 0)] keys r = Inr ?d1"
    using kt by (simp add: update_keys_def)
  have fstD: "fst ` set ?D = set keys"
    using D(1) by (simp add: columns_def)
  have c1: "map_of ?d1 column = Some (VInt 0)"
    using col fstD by (simp add: map_of_dict_update_other)
  have step: "Count_step column keys [(column, VInt 0)] r = Inr ?d"
    using ne nc up c1 by (simp add: Count_step_def getitem_def)
  have m: "map_of ?d1 k = map_of r k" if "k \<in> set keys" for k
    using map_of_dict_update_in [OF D(3), of "[(column, VInt 0)]" k] that fstD by simp
  have "set (columns [(column, VInt 0)]) = {column}"
    by (simp add: columns_def)
  then have cols: "set (columns ?d1) = insert column (set keys)"
    using fstD by (simp add: set_columns_dict_update)
  have dist: "distinct (columns ?d1)"
    by (rule distinct_columns_dict_update) (simp add: columns_def)
  have "map_of ?d column = Some (VInt 1)"
    by (simp add: map_of_setitem)
  moreover have "set (columns ?d) = insert column (set keys)"
    using cols by (simp add: set_columns_setitem)
  moreover have "distinct (columns ?d)"
    using dist by (rule distinct_columns_setitem)
  moreover have "\<forall>k \<in> set keys. map_of ?d k = map_of r k"
    using m col by (auto simp: map_of_setitem)
  ultimately show ?thesis using step by blast
qed

lemma Count_group:
  assumes col: "column \<notin> set keys" and kt: "key_tuple keys r = Inr vs"
  shows "\<exists>out. Count column keys (r # rs) = Inr [out] \<and> is_count_row keys column (r # rs) out"
proof (cases "keys = []")
  case True
  have "Count_loop column [] [(column, VInt 0)] (r # rs)
          = Inr (setitem [(column, VInt 0)] column (VInt (0 + int (length (r # rs)))))"
    by (rule Count_loop_increment) simp_all
  then show ?thesis
    using True by (simp add: Count_def is_count_row_def columns_def)
next
  case False
  from Count_first_row [OF col False kt] obtain d where
    step: "Count_step column keys [(column, VInt 0)] r = Inr d"
    and m: "map_of d column = Some (VInt 1)"
    and cols: "set (columns d) = insert column (set keys)"
    and dist: "distinct (columns d)"
    and vals: "\<forall>k \<in> set keys. map_of d k = map_of r k"
    by blast
  have "hd keys \<in> set keys" using False by simp
  then have c: "keys = [] \<or> contains d (hd keys)"
    using cols by (simp add: contains_def)
  let ?out = "setitem d column (VInt (1 + int (length rs)))"
  have loop: "Count_loop column keys d rs = Inr ?out"
    using m c by (rule Count_loop_increment)
  have "Count column keys (r # rs) = Inr [?out]"
    using step loop by (simp add: Count_def)
  moreover have "is_count_row keys column (r # rs) ?out"
    using cols dist vals col
    by (auto simp: is_count_row_def set_columns_setitem distinct_columns_setitem map_of_setitem
          list_all_iff)
  ultimately show ?thesis by blast
qed

section \<open>Facts about the groups of Reduce\<close>

lemma has_keys_iff: "has_keys keys r \<longleftrightarrow> (\<exists>k. key_tuple keys r = Inr k)"
  by (simp add: has_keys_def split: sum.splits)

lemma maximal_runs_hd: "maximal_runs keys (g # gs) \<Longrightarrow> is_run keys g"
  by (cases gs) simp_all

lemma maximal_runs_Cons:
  assumes "is_run keys g" and "maximal_runs keys gs"
    and "gs \<noteq> [] \<Longrightarrow> key_tuple keys (hd (concat gs)) \<noteq> key_tuple keys (hd g)"
  shows "maximal_runs keys (g # gs)"
proof (cases gs)
  case Nil
  then show ?thesis using assms by simp
next
  case (Cons g' gs')
  then have "is_run keys g'" using assms(2) maximal_runs_hd by blast
  then have "g' \<noteq> []" by (simp add: is_run_def)
  then show ?thesis using assms Cons by simp
qed

lemma is_run_group:
  assumes "key_tuple keys r = Inr k"
  shows "is_run keys (r # takeWhile (same_key keys k) rs)"
  using assms
  by (auto simp: is_run_def has_keys_def list_all_iff same_key_def dest: set_takeWhileD)

lemma Reduce_Count_groups:
  "column \<notin> set keys \<Longrightarrow> list_all (has_keys keys) rs \<Longrightarrow>
    \<exists>gs outs. concat gs = rs \<and> maximal_runs keys gs
       \<and> Reduce (Count column) keys rs = Inr outs
       \<and> list_all2 (is_count_row keys column) gs outs"
proof (induction "Count column" keys rs rule: Reduce.induct)
  case (1 keys)
  have "concat [] = ([] :: row list) \<and> maximal_runs keys []
       \<and> Reduce (Count column) keys [] = Inr []
       \<and> list_all2 (is_count_row keys column) [] []"
    by simp
  then show ?case by blast
next
  case (2 keys r rs)
  note col = "2.prems"(1)
  from "2.prems"(2) obtain k where k: "key_tuple keys r = Inr k"
    by (auto simp: has_keys_iff)
  let ?g = "r # takeWhile (same_key keys k) rs"
  let ?rest = "dropWhile (same_key keys k) rs"
  have "list_all (has_keys keys) ?rest"
    using "2.prems"(2) by (auto simp: list_all_iff dest: set_dropWhileD)
  from "2.hyps" [OF k col this] obtain gs outs where
    c: "concat gs = ?rest" and m: "maximal_runs keys gs"
    and red: "Reduce (Count column) keys ?rest = Inr outs"
    and rows: "list_all2 (is_count_row keys column) gs outs"
    by blast
  from Count_group [OF col k] obtain out where
    cnt: "Count column keys ?g = Inr [out]" and out: "is_count_row keys column ?g out"
    by blast
  have run: "is_run keys ?g" using k by (rule is_run_group)
  have diff: "key_tuple keys (hd (concat gs)) \<noteq> key_tuple keys (hd ?g)" if ne: "gs \<noteq> []"
  proof -
    obtain g' gs' where gs: "gs = g' # gs'" using ne by (cases gs) auto
    have "is_run keys g'" using m gs maximal_runs_hd by blast
    then have "g' \<noteq> []" by (simp add: is_run_def)
    then have "?rest \<noteq> []" using c gs by (metis append_is_Nil_conv concat.simps(2))
    then have "\<not> same_key keys k (hd ?rest)" by (rule hd_dropWhile)
    then show ?thesis using c k by (simp add: same_key_def)
  qed
  have 1: "concat (?g # gs) = r # rs" using c by simp
  have 2: "maximal_runs keys (?g # gs)" using run m diff by (rule maximal_runs_Cons)
  have 3: "Reduce (Count column) keys (r # rs) = Inr (out # outs)"
    using k cnt red by simp
  have 4: "list_all2 (is_count_row keys column) (?g # gs) (out # outs)"
    using out rows by simp
  show ?case using 1 2 3 4 by blast
qed

lemma Reduce_Count_example:
  "Reduce (Count ''d'') [''a'']
     [[(''a'', VInt 1), (''b'', VInt 5)], [(''a'', VInt 1), (''b'', VInt 6)],
      [(''a'', VInt 2), (''b'', VInt 7)]]
   = Inr [[(''d'', VInt 2), (''a'', VInt 1)], [(''d'', VInt 1), (''a'', VInt 2)]]"
  by (simp add: same_key_def getitem_def Count_def Count_step_def contains_def columns_def
        update_keys_def dict_update_def)

lemma Reduce_Count_clash:
  "Reduce (Count ''a'') [''a''] [[(''a'', VInt 5)]] = Inr [[(''a'', VInt 1)]]"
  by (simp add: same_key_def getitem_def Count_def Count_step_def contains_def columns_def
        update_keys_def dict_update_def)

section \<open>Count on every run (C5)\<close>

text \<open>
  C5, as amended. Let the count column be none of the grouping keys, and let every
  row have the keys. Then the input is the concatenation of its maximal runs of rows
  with the same key tuple, and \<open>Reduce\<close> with \<open>Count\<close> emits exactly one row
  for each run, in the order of the runs: the row holds the key columns with the
  values they have in the run, and the count column with the number of rows of the
  run, and nothing else. (The input need not be sorted for this.)
\<close>

theorem Reduce_Count_runs:
  assumes "column \<notin> set keys" and "list_all (has_keys keys) rs"
  shows "\<exists>gs outs. concat gs = rs \<and> maximal_runs keys gs
       \<and> Reduce (Count column) keys rs = Inr outs
       \<and> list_all2 (is_count_row keys column) gs outs"
  using assms by (rule Reduce_Count_groups)

theorem Reduce_Count_runs_witness:
  "''d'' \<notin> set [''a'']
   \<and> list_all (has_keys [''a''])
        [[(''a'', VInt 1), (''b'', VInt 5)], [(''a'', VInt 1), (''b'', VInt 6)],
         [(''a'', VInt 2), (''b'', VInt 7)]]
   \<and> (\<exists>gs outs.
         concat gs = [[(''a'', VInt 1), (''b'', VInt 5)], [(''a'', VInt 1), (''b'', VInt 6)],
                      [(''a'', VInt 2), (''b'', VInt 7)]]
         \<and> maximal_runs [''a''] gs
         \<and> Reduce (Count ''d'') [''a'']
              [[(''a'', VInt 1), (''b'', VInt 5)], [(''a'', VInt 1), (''b'', VInt 6)],
               [(''a'', VInt 2), (''b'', VInt 7)]] = Inr outs
         \<and> list_all2 (is_count_row [''a''] ''d'') gs outs)
   \<and> Reduce (Count ''d'') [''a'']
        [[(''a'', VInt 1), (''b'', VInt 5)], [(''a'', VInt 1), (''b'', VInt 6)],
         [(''a'', VInt 2), (''b'', VInt 7)]]
       = Inr [[(''d'', VInt 2), (''a'', VInt 1)], [(''d'', VInt 1), (''a'', VInt 2)]]"
proof -
  have c: "''d'' \<notin> set [''a'']" by simp
  have h: "list_all (has_keys [''a''])
        [[(''a'', VInt 1), (''b'', VInt 5)], [(''a'', VInt 1), (''b'', VInt 6)],
         [(''a'', VInt 2), (''b'', VInt 7)]]"
    by (simp add: has_keys_def getitem_def)
  show ?thesis
    using c h Reduce_Count_runs [OF c h] Reduce_Count_example by blast
qed

text \<open>
  C5 as stated fails when the count column is one of the grouping keys: for the keys
  \<^verbatim>\<open>['a', 'n']\<close>, the count column \<^verbatim>\<open>'n'\<close> and the one row
  \<^verbatim>\<open>{'a': 1, 'n': 1}\<close>, the row \<^verbatim>\<open>{'n': 1, 'a': 1}\<close> would hold the key values
  and the count, but \<open>Count\<close> copies the key value into its counter and emits
  \<^verbatim>\<open>{'n': 2, 'a': 1}\<close>.
\<close>

theorem Reduce_Count_key_column_counterexample:
  "Reduce (Count ''n'') [''a'', ''n''] [[(''a'', VInt 1), (''n'', VInt 1)]]
     = Inr [[(''n'', VInt 2), (''a'', VInt 1)]]
   \<and> \<not> is_count_row [''a'', ''n''] ''n'' [[(''a'', VInt 1), (''n'', VInt 1)]]
         [(''n'', VInt 2), (''a'', VInt 1)]"
  by (simp add: same_key_def getitem_def Count_def Count_step_def contains_def columns_def
        update_keys_def dict_update_def is_count_row_def)

section \<open>Facts about the comparisons\<close>

lemma py_lt_irrefl: "py_lt a a = Inr c \<Longrightarrow> \<not> c"
  by (cases a) auto

lemma py_lt_asym: "py_lt a b = Inr True \<Longrightarrow> py_lt b a = Inr False"
  by (cases a; cases b) auto

lemma py_lt_total: "py_lt a b = Inr False \<Longrightarrow> py_lt b a = Inr False \<Longrightarrow> a = b"
  by (cases a; cases b) auto

lemma py_lt_defined: "py_lt a b = Inr c \<Longrightarrow> \<exists>c'. py_lt b a = Inr c'"
  by (cases a; cases b) auto

lemma tuple_lt_irrefl: "tuple_lt a a = Inr False"
  by (induction a) auto

lemma tuple_lt_asym: "tuple_lt a b = Inr True \<Longrightarrow> tuple_lt b a = Inr False"
  by (induction a b rule: tuple_lt.induct) (auto simp: py_lt_asym split: if_splits)

lemma tuple_lt_total: "tuple_lt a b = Inr False \<Longrightarrow> tuple_lt b a = Inr False \<Longrightarrow> a = b"
  by (induction a b rule: tuple_lt.induct) (auto simp: py_lt_total split: if_splits)

lemma tuple_lt_defined: "tuple_lt a b = Inr c \<Longrightarrow> \<exists>c'. tuple_lt b a = Inr c'"
  by (induction a b rule: tuple_lt.induct) (auto simp: py_lt_defined split: if_splits)

section \<open>Facts about typed key columns\<close>

lemma holds_int_getitem: "holds_int key r \<Longrightarrow> \<exists>i. getitem r key = Inr (VInt i)"
  by (auto simp: holds_int_def split: sum.splits val.splits)

lemma holds_str_getitem: "holds_str key r \<Longrightarrow> \<exists>s. getitem r key = Inr (VStr s)"
  by (auto simp: holds_str_def split: sum.splits val.splits)

lemma typed_column_py_lt:
  assumes "typed_column rs key" and "a \<in> set rs" and "b \<in> set rs"
  shows "\<exists>va vb c. getitem a key = Inr va \<and> getitem b key = Inr vb \<and> py_lt va vb = Inr c"
proof -
  from assms(1) consider "list_all (holds_int key) rs" | "list_all (holds_str key) rs"
    by (auto simp: typed_column_def)
  then show ?thesis
  proof cases
    case 1
    then have "holds_int key a" "holds_int key b" using assms(2,3) by (auto simp: list_all_iff)
    then obtain i j where "getitem a key = Inr (VInt i)" "getitem b key = Inr (VInt j)"
      using holds_int_getitem by blast
    then show ?thesis by simp
  next
    case 2
    then have "holds_str key a" "holds_str key b" using assms(2,3) by (auto simp: list_all_iff)
    then obtain s t where "getitem a key = Inr (VStr s)" "getitem b key = Inr (VStr t)"
      using holds_str_getitem by blast
    then show ?thesis by simp
  qed
qed

lemma typed_keys_tuple_lt:
  "typed_keys keys rs \<Longrightarrow> a \<in> set rs \<Longrightarrow> b \<in> set rs \<Longrightarrow>
   \<exists>ka kb c. key_tuple keys a = Inr ka \<and> key_tuple keys b = Inr kb \<and> tuple_lt ka kb = Inr c"
proof (induction keys)
  case Nil
  show ?case by (simp add: exI [of _ False])
next
  case (Cons key keys)
  from Cons.prems have tc: "typed_column rs key" and tk: "typed_keys keys rs"
    by (simp_all add: typed_keys_def)
  from typed_column_py_lt [OF tc Cons.prems(2,3)] obtain va vb c where
    v: "getitem a key = Inr va" "getitem b key = Inr vb" "py_lt va vb = Inr c" by blast
  from Cons.IH [OF tk Cons.prems(2,3)] obtain ka kb c' where
    k: "key_tuple keys a = Inr ka" "key_tuple keys b = Inr kb" "tuple_lt ka kb = Inr c'" by blast
  show ?case using v k by simp
qed

lemma typed_keys_comparable:
  assumes "typed_keys keys (ls @ rs)"
  shows "list_all (\<lambda>a. list_all (comparable keys a) rs) ls"
proof -
  have "comparable keys a b" if "a \<in> set ls" "b \<in> set rs" for a b
  proof -
    from typed_keys_tuple_lt [OF assms, of a b] that obtain ka kb c where
      "key_tuple keys a = Inr ka" "key_tuple keys b = Inr kb" "tuple_lt ka kb = Inr c" by auto
    then show ?thesis by (simp add: comparable_def)
  qed
  then show ?thesis by (simp add: list_all_iff)
qed

lemma typed_keys_sort_comparable:
  assumes "keys \<noteq> []" and "typed_keys keys rs"
  shows "list_all (\<lambda>a. list_all (sort_comparable keys a) rs) rs"
proof -
  have "sort_comparable keys a b" if "a \<in> set rs" "b \<in> set rs" for a b
  proof -
    from typed_keys_tuple_lt [OF assms(2) that] obtain ka kb c where
      k: "key_tuple keys a = Inr ka" "key_tuple keys b = Inr kb" "tuple_lt ka kb = Inr c" by blast
    show ?thesis
    proof (cases keys)
      case Nil
      then show ?thesis using assms(1) by simp
    next
      case (Cons key ks)
      note outer = Cons
      show ?thesis
      proof (cases ks)
        case Nil
        from assms(2) outer have "typed_column rs key" by (simp add: typed_keys_def)
        from typed_column_py_lt [OF this that] obtain va vb c where
          "getitem a key = Inr va" "getitem b key = Inr vb" "py_lt va vb = Inr c" by blast
        then show ?thesis using outer Nil
          by (simp add: sort_comparable_def key_lt_def key_of_def itemgetter_def)
      next
        case (Cons key2 ks2)
        then show ?thesis using outer k
          by (simp add: sort_comparable_def key_lt_def key_of_def itemgetter_def)
      qed
    qed
  qed
  then show ?thesis by (simp add: list_all_iff)
qed

section \<open>Facts about the joiners\<close>

lemma dict_update_append:
  "distinct (columns (d @ r)) \<Longrightarrow> dict_update d r = d @ r"
  unfolding dict_update_def
proof (induction r arbitrary: d)
  case Nil
  then show ?case by simp
next
  case (Cons p r)
  obtain k v where p: "p = (k, v)" by (cases p)
  have "k \<notin> set (columns d)" using Cons.prems p by (auto simp: columns_def)
  then have s: "setitem d k v = d @ [(k, v)]"
    by (induction d) (auto simp: columns_def)
  have "distinct (columns ((d @ [(k, v)]) @ r))" using Cons.prems p by (simp add: columns_def)
  from Cons.IH [OF this] show ?case using p s by simp
qed

lemma join_with_empty_right:
  "wf_row r \<Longrightarrow> join_two_rows a_suffix b_suffix keys r [] = [r]"
  using dict_update_append [of "[]" r]
  by (simp add: join_two_rows_def intersected_keys_def append_keys_def columns_Nil wf_row_def
        dict_update_def)

lemma join_with_empty_left:
  "wf_row r \<Longrightarrow> join_two_rows a_suffix b_suffix keys [] r = [r]"
  using dict_update_append [of "[]" r]
  by (simp add: join_two_rows_def intersected_keys_def append_keys_def columns_Nil wf_row_def
        dict_update_def)

lemma concat_map_singleton: "concat (map (\<lambda>x. [x]) xs) = xs"
  by (induction xs) auto

lemma joiners_left_only:
  assumes "list_all wf_row g"
  shows "InnerJoiner a_suffix b_suffix keys g [] = []"
    and "LeftJoiner a_suffix b_suffix keys g [] = g"
    and "RightJoiner a_suffix b_suffix keys g [] = []"
    and "g \<noteq> [] \<Longrightarrow> OuterJoiner a_suffix b_suffix keys g [] = g"
proof -
  have "map (\<lambda>row_a. join_two_rows a_suffix b_suffix keys row_a []) g = map (\<lambda>x. [x]) g"
    using assms by (auto simp: list_all_iff join_with_empty_right)
  then have m: "concat (map (\<lambda>row_a. join_two_rows a_suffix b_suffix keys row_a []) g) = g"
    by (simp only: concat_map_singleton)
  show "InnerJoiner a_suffix b_suffix keys g [] = []"
    by (simp add: InnerJoiner_def)
  show "LeftJoiner a_suffix b_suffix keys g [] = g"
    using m by (simp add: LeftJoiner_def or_empty_row_def)
  show "RightJoiner a_suffix b_suffix keys g [] = []"
    by (simp add: RightJoiner_def)
  show "g \<noteq> [] \<Longrightarrow> OuterJoiner a_suffix b_suffix keys g [] = g"
    using m by (simp add: OuterJoiner_def or_empty_row_def)
qed

lemma joiners_right_only:
  assumes "list_all wf_row g"
  shows "InnerJoiner a_suffix b_suffix keys [] g = []"
    and "LeftJoiner a_suffix b_suffix keys [] g = []"
    and "RightJoiner a_suffix b_suffix keys [] g = g"
    and "g \<noteq> [] \<Longrightarrow> OuterJoiner a_suffix b_suffix keys [] g = g"
proof -
  have "map (\<lambda>row_b. join_two_rows a_suffix b_suffix keys [] row_b) g = map (\<lambda>x. [x]) g"
    using assms by (auto simp: list_all_iff join_with_empty_left)
  then have m: "concat (map (\<lambda>row_b. join_two_rows a_suffix b_suffix keys [] row_b) g) = g"
    by (simp only: concat_map_singleton)
  have "map (\<lambda>row_a. join_two_rows a_suffix b_suffix keys row_a []) g = map (\<lambda>x. [x]) g"
    using assms by (auto simp: list_all_iff join_with_empty_right)
  then have m': "concat (map (\<lambda>row_a. join_two_rows a_suffix b_suffix keys row_a []) g) = g"
    by (simp only: concat_map_singleton)
  show "InnerJoiner a_suffix b_suffix keys [] g = []"
    by (simp add: InnerJoiner_def)
  show "LeftJoiner a_suffix b_suffix keys [] g = []"
    by (simp add: LeftJoiner_def)
  show "RightJoiner a_suffix b_suffix keys [] g = g"
    using m' by (simp add: RightJoiner_def or_empty_row_def)
  show "g \<noteq> [] \<Longrightarrow> OuterJoiner a_suffix b_suffix keys [] g = g"
    using m by (simp add: OuterJoiner_def or_empty_row_def)
qed

section \<open>Join is the concatenation of the calls of the joiner\<close>

lemma yield_from_Inr: "yield_from (Inr xs) b = (case b of Inl e \<Rightarrow> Inl e | Inr ys \<Rightarrow> Inr (xs @ ys))"
  by (cases b) auto

lemma Join_calls:
  "Join J keys ls rs =
     (case joiner_calls keys ls rs of
        Inl e \<Rightarrow> Inl e
      | Inr calls \<Rightarrow> Inr (concat (map (\<lambda>(a, b). J keys a b) calls)))"
  unfolding joiner_calls_def
  by (induction J keys ls rs rule: Join.induct)
     (auto simp: yield_from_Inr split: sum.splits bool.splits)

section \<open>Facts about key-sorted streams\<close>

lemma key_le_cases:
  assumes "key_le keys a b" and "key_tuple keys a = Inr k"
  shows "same_key keys k b \<or> (\<exists>kb. key_tuple keys b = Inr kb \<and> tuple_lt k kb = Inr True)"
  using assms by (auto simp: key_le_def same_key_def split: sum.splits)

lemma key_sorted_Cons:
  "key_sorted keys (l # ls) \<Longrightarrow> key_sorted keys ls \<and> (\<forall>x \<in> set ls. key_le keys l x)"
  by (simp add: key_sorted_def)

lemma key_sorted_dropWhile: "key_sorted keys ls \<Longrightarrow> key_sorted keys (dropWhile P ls)"
  unfolding key_sorted_def
  by (auto simp: list_all_iff dropWhile_eq_drop sorted_wrt_drop dest: in_set_dropD)

lemma not_same_key_after:
  assumes "key_le keys l x" and "key_tuple keys l = Inr k1" and "tuple_lt k k1 = Inr True"
  shows "\<not> same_key keys k x"
proof
  assume "same_key keys k x"
  then have kx: "key_tuple keys x = Inr k" by (simp add: same_key_def)
  from key_le_cases [OF assms(1,2)] kx have "k = k1 \<or> tuple_lt k1 k = Inr True"
    by (auto simp: same_key_def)
  then show False
    using assms(3) tuple_lt_irrefl [of k] tuple_lt_asym [of k k1] by auto
qed

text \<open>A key smaller than the key of the first row of a key-sorted stream is not in the stream.\<close>

lemma smaller_key_absent:
  assumes "key_sorted keys (r # rs)" and "key_tuple keys r = Inr k2" and "tuple_lt k k2 = Inr True"
  shows "filter (same_key keys k) (r # rs) = []"
proof -
  have "\<not> same_key keys k r"
    using assms(2,3) tuple_lt_irrefl [of k] by (auto simp: same_key_def)
  moreover have "\<not> same_key keys k x" if "x \<in> set rs" for x
    using key_sorted_Cons [OF assms(1)] that assms(2,3) not_same_key_after by blast
  ultimately show ?thesis by (auto simp: filter_empty_conv)
qed

text \<open>Behind the first group of a key-sorted stream no row has the key of the group.\<close>

lemma group_key_gone:
  assumes "key_sorted keys (l # ls)" and "key_tuple keys l = Inr k1"
  shows "filter (same_key keys k1) (dropWhile (same_key keys k1) ls) = []"
proof (cases "dropWhile (same_key keys k1) ls")
  case Nil
  then show ?thesis by (simp only: filter.simps)
next
  case (Cons d ds)
  have sorted: "key_sorted keys (d # ds)"
    using key_sorted_dropWhile [of keys ls "same_key keys k1"] key_sorted_Cons [OF assms(1)] Cons
    by simp
  have "d \<in> set ls" using Cons by (metis list.set_intros(1) set_dropWhileD)
  then have le: "key_le keys l d" using key_sorted_Cons [OF assms(1)] by blast
  have nd: "\<not> same_key keys k1 d" using Cons hd_dropWhile [of "same_key keys k1" ls] by auto
  from key_le_cases [OF le assms(2)] nd obtain kd where
    kd: "key_tuple keys d = Inr kd" and lt: "tuple_lt k1 kd = Inr True"
    by blast
  show ?thesis
    using smaller_key_absent [OF sorted kd lt] Cons by simp
qed

lemma first_group:
  assumes "key_sorted keys (l # ls)" and "key_tuple keys l = Inr k1"
  shows "filter (same_key keys k1) (l # ls) = l # takeWhile (same_key keys k1) ls"
proof -
  have "filter (same_key keys k1) ls
        = filter (same_key keys k1) (takeWhile (same_key keys k1) ls @ dropWhile (same_key keys k1) ls)"
    by simp
  also have "\<dots> = filter (same_key keys k1) (takeWhile (same_key keys k1) ls)"
    using group_key_gone [OF assms] by (simp only: filter_append append_Nil2)
  also have "\<dots> = takeWhile (same_key keys k1) ls"
    by (simp add: filter_id_conv) (meson set_takeWhileD)
  finally show ?thesis using assms(2) by (simp add: same_key_def)
qed

lemma other_group:
  assumes "key_tuple keys l = Inr k1" and "k \<noteq> k1"
  shows "filter (same_key keys k) (l # ls) = filter (same_key keys k) (dropWhile (same_key keys k1) ls)"
proof -
  have "filter (same_key keys k) (takeWhile (same_key keys k1) ls) = []"
    using assms(2) by (auto simp: filter_empty_conv same_key_def dest!: set_takeWhileD)
  then have "filter (same_key keys k) ls
        = filter (same_key keys k) (dropWhile (same_key keys k1) ls)"
    by (metis append_Nil filter_append takeWhile_dropWhile_id)
  then show ?thesis using assms by (simp add: same_key_def)
qed

lemma list_ex_group:
  assumes "key_tuple keys l = Inr k1"
  shows "list_ex (same_key keys k) (l # takeWhile (same_key keys k1) ls) \<longleftrightarrow> k = k1"
  using assms by (auto simp: list_ex_iff same_key_def dest!: set_takeWhileD)

section \<open>The calls of the joiner, group by group\<close>

lemma walk_induct [case_names both_ended right_ended left_ended both]:
  assumes "\<And>keys. P keys [] []"
    and "\<And>keys l ls.
          (\<And>k. key_tuple keys l = Inr k \<Longrightarrow> P keys (dropWhile (same_key keys k) ls) [])
          \<Longrightarrow> P keys (l # ls) []"
    and "\<And>keys r rs.
          (\<And>k. key_tuple keys r = Inr k \<Longrightarrow> P keys [] (dropWhile (same_key keys k) rs))
          \<Longrightarrow> P keys [] (r # rs)"
    and "\<And>keys l ls r rs.
          (\<And>k1 k2. key_tuple keys l = Inr k1 \<Longrightarrow> key_tuple keys r = Inr k2 \<Longrightarrow>
              tuple_lt k1 k2 = Inr True \<Longrightarrow> P keys (dropWhile (same_key keys k1) ls) (r # rs))
          \<Longrightarrow> (\<And>k1 k2. key_tuple keys l = Inr k1 \<Longrightarrow> key_tuple keys r = Inr k2 \<Longrightarrow>
              tuple_lt k1 k2 = Inr False \<Longrightarrow> tuple_lt k2 k1 = Inr True \<Longrightarrow>
              P keys (l # ls) (dropWhile (same_key keys k2) rs))
          \<Longrightarrow> (\<And>k1 k2. key_tuple keys l = Inr k1 \<Longrightarrow> key_tuple keys r = Inr k2 \<Longrightarrow>
              tuple_lt k1 k2 = Inr False \<Longrightarrow> tuple_lt k2 k1 = Inr False \<Longrightarrow>
              P keys (dropWhile (same_key keys k1) ls) (dropWhile (same_key keys k2) rs))
          \<Longrightarrow> P keys (l # ls) (r # rs)"
  shows "P keys ls rs"
proof (rule Join.induct
    [of "\<lambda>(J :: string list \<Rightarrow> row list \<Rightarrow> row list \<Rightarrow> unit list) keys ls rs. P keys ls rs"
        "\<lambda>keys rows_a rows_b. []" keys ls rs])
  fix keys
  show "P keys [] []" by (rule assms(1))
next
  fix keys l ls
  assume "\<And>b. key_tuple keys l = Inr b \<Longrightarrow> P keys (dropWhile (same_key keys b) ls) []"
  then show "P keys (l # ls) []" by (rule assms(2))
next
  fix keys r rs
  assume "\<And>b. key_tuple keys r = Inr b \<Longrightarrow> P keys [] (dropWhile (same_key keys b) rs)"
  then show "P keys [] (r # rs)" by (rule assms(3))
next
  fix keys l ls r rs
  assume 1: "\<And>b ba bb. key_tuple keys l = Inr b \<Longrightarrow> key_tuple keys r = Inr ba \<Longrightarrow>
        tuple_lt b ba = Inr bb \<Longrightarrow> bb = True \<Longrightarrow>
        P keys (dropWhile (same_key keys b) ls) (r # rs)"
    and 2: "\<And>b ba bb bba. key_tuple keys l = Inr b \<Longrightarrow> key_tuple keys r = Inr ba \<Longrightarrow>
        tuple_lt b ba = Inr bb \<Longrightarrow> bb = False \<Longrightarrow> tuple_lt ba b = Inr bba \<Longrightarrow> bba = True \<Longrightarrow>
        P keys (l # ls) (dropWhile (same_key keys ba) rs)"
    and 3: "\<And>b ba bb bba. key_tuple keys l = Inr b \<Longrightarrow> key_tuple keys r = Inr ba \<Longrightarrow>
        tuple_lt b ba = Inr bb \<Longrightarrow> bb = False \<Longrightarrow> tuple_lt ba b = Inr bba \<Longrightarrow> bba = False \<Longrightarrow>
        P keys (dropWhile (same_key keys b) ls) (dropWhile (same_key keys ba) rs)"
  show "P keys (l # ls) (r # rs)"
  proof (rule assms(4))
    fix k1 k2
    assume "key_tuple keys l = Inr k1" "key_tuple keys r = Inr k2" "tuple_lt k1 k2 = Inr True"
    then show "P keys (dropWhile (same_key keys k1) ls) (r # rs)" using 1 by blast
  next
    fix k1 k2
    assume "key_tuple keys l = Inr k1" "key_tuple keys r = Inr k2"
      "tuple_lt k1 k2 = Inr False" "tuple_lt k2 k1 = Inr True"
    then show "P keys (l # ls) (dropWhile (same_key keys k2) rs)" using 2 by blast
  next
    fix k1 k2
    assume "key_tuple keys l = Inr k1" "key_tuple keys r = Inr k2"
      "tuple_lt k1 k2 = Inr False" "tuple_lt k2 k1 = Inr False"
    then show "P keys (dropWhile (same_key keys k1) ls) (dropWhile (same_key keys k2) rs)"
      using 3 by blast
  qed
qed

lemma joiner_calls_Nil: "joiner_calls keys [] [] = Inr []"
  by (simp add: joiner_calls_def)

lemma joiner_calls_left:
  assumes "key_tuple keys l = Inr k1" and "rs = [] \<or> (\<exists>k2. key_tuple keys (hd rs) = Inr k2 \<and> tuple_lt k1 k2 = Inr True)"
    and "joiner_calls keys (dropWhile (same_key keys k1) ls) rs = Inr calls"
  shows "joiner_calls keys (l # ls) rs = Inr ((l # takeWhile (same_key keys k1) ls, []) # calls)"
proof (cases rs)
  case Nil
  then show ?thesis using assms by (simp add: joiner_calls_def)
next
  case (Cons r rs')
  then show ?thesis using assms by (auto simp: joiner_calls_def)
qed

lemma joiner_calls_right:
  assumes "key_tuple keys r = Inr k2"
    and "ls = [] \<or> (\<exists>k1. key_tuple keys (hd ls) = Inr k1 \<and> tuple_lt k1 k2 = Inr False
                        \<and> tuple_lt k2 k1 = Inr True)"
    and "joiner_calls keys ls (dropWhile (same_key keys k2) rs) = Inr calls"
  shows "joiner_calls keys ls (r # rs) = Inr (([], r # takeWhile (same_key keys k2) rs) # calls)"
proof (cases ls)
  case Nil
  then show ?thesis using assms by (simp add: joiner_calls_def)
next
  case (Cons l ls')
  then show ?thesis using assms by (auto simp: joiner_calls_def)
qed

lemma joiner_calls_both:
  assumes "key_tuple keys l = Inr k" and "key_tuple keys r = Inr k"
    and "joiner_calls keys (dropWhile (same_key keys k) ls) (dropWhile (same_key keys k) rs) = Inr calls"
  shows "joiner_calls keys (l # ls) (r # rs)
       = Inr ((l # takeWhile (same_key keys k) ls, r # takeWhile (same_key keys k) rs) # calls)"
  using assms tuple_lt_irrefl [of k] by (simp add: joiner_calls_def)

lemma step_left:
  assumes "key_sorted keys (l # ls)" and "key_tuple keys l = Inr k1"
    and "filter (same_key keys k1) R = []"
    and "filter (touches keys k) calls = group_call keys k (dropWhile (same_key keys k1) ls) R"
  shows "filter (touches keys k) ((l # takeWhile (same_key keys k1) ls, []) # calls)
       = group_call keys k (l # ls) R"
proof (cases "k = k1")
  case True
  have "group_call keys k1 (dropWhile (same_key keys k1) ls) R = []"
    using group_key_gone [OF assms(1,2)] assms(3) by (simp add: group_call_def)
  moreover have "group_call keys k1 (l # ls) R = [(l # takeWhile (same_key keys k1) ls, [])]"
    using first_group [OF assms(1,2)] assms(3) by (simp add: group_call_def)
  moreover have "touches keys k1 (l # takeWhile (same_key keys k1) ls, [])"
    using list_ex_group [OF assms(2), of k1 ls] by (simp add: touches_def)
  ultimately show ?thesis using True assms(4) by simp
next
  case False
  have "group_call keys k (l # ls) R = group_call keys k (dropWhile (same_key keys k1) ls) R"
    using other_group [OF assms(2) False, of ls] by (simp add: group_call_def)
  moreover have "\<not> touches keys k (l # takeWhile (same_key keys k1) ls, [])"
    using list_ex_group [OF assms(2), of k ls] False by (simp add: touches_def)
  ultimately show ?thesis using assms(4) by simp
qed

lemma step_right:
  assumes "key_sorted keys (r # rs)" and "key_tuple keys r = Inr k2"
    and "filter (same_key keys k2) L = []"
    and "filter (touches keys k) calls = group_call keys k L (dropWhile (same_key keys k2) rs)"
  shows "filter (touches keys k) (([], r # takeWhile (same_key keys k2) rs) # calls)
       = group_call keys k L (r # rs)"
proof (cases "k = k2")
  case True
  have "group_call keys k2 L (dropWhile (same_key keys k2) rs) = []"
    using group_key_gone [OF assms(1,2)] assms(3) by (simp add: group_call_def)
  moreover have "group_call keys k2 L (r # rs) = [([], r # takeWhile (same_key keys k2) rs)]"
    using first_group [OF assms(1,2)] assms(3) by (simp add: group_call_def)
  moreover have "touches keys k2 ([], r # takeWhile (same_key keys k2) rs)"
    using list_ex_group [OF assms(2), of k2 rs] by (simp add: touches_def)
  ultimately show ?thesis using True assms(4) by simp
next
  case False
  have "group_call keys k L (r # rs) = group_call keys k L (dropWhile (same_key keys k2) rs)"
    using other_group [OF assms(2) False, of rs] by (simp add: group_call_def)
  moreover have "\<not> touches keys k ([], r # takeWhile (same_key keys k2) rs)"
    using list_ex_group [OF assms(2), of k rs] False by (simp add: touches_def)
  ultimately show ?thesis using assms(4) by simp
qed

lemma step_both:
  assumes "key_sorted keys (l # ls)" and "key_sorted keys (r # rs)"
    and "key_tuple keys l = Inr k1" and "key_tuple keys r = Inr k1"
    and "filter (touches keys k) calls
       = group_call keys k (dropWhile (same_key keys k1) ls) (dropWhile (same_key keys k1) rs)"
  shows "filter (touches keys k)
           ((l # takeWhile (same_key keys k1) ls, r # takeWhile (same_key keys k1) rs) # calls)
       = group_call keys k (l # ls) (r # rs)"
proof (cases "k = k1")
  case True
  have "group_call keys k1 (dropWhile (same_key keys k1) ls) (dropWhile (same_key keys k1) rs) = []"
    using group_key_gone [OF assms(1,3)] group_key_gone [OF assms(2,4)] by (simp add: group_call_def)
  moreover have "group_call keys k1 (l # ls) (r # rs)
      = [(l # takeWhile (same_key keys k1) ls, r # takeWhile (same_key keys k1) rs)]"
    using first_group [OF assms(1,3)] first_group [OF assms(2,4)] by (simp add: group_call_def)
  moreover have "touches keys k1 (l # takeWhile (same_key keys k1) ls, r # takeWhile (same_key keys k1) rs)"
    using assms(3) by (simp add: touches_def same_key_def)
  ultimately show ?thesis using True assms(5) by simp
next
  case False
  have "group_call keys k (l # ls) (r # rs)
      = group_call keys k (dropWhile (same_key keys k1) ls) (dropWhile (same_key keys k1) rs)"
    using other_group [OF assms(3) False, of ls] other_group [OF assms(4) False, of rs]
    by (simp add: group_call_def)
  moreover have "\<not> touches keys k
      (l # takeWhile (same_key keys k1) ls, r # takeWhile (same_key keys k1) rs)"
    using list_ex_group [OF assms(3), of k ls] list_ex_group [OF assms(4), of k rs] False
    by (simp add: touches_def)
  ultimately show ?thesis using assms(5) by simp
qed

lemma comparable_tuple_lt:
  assumes "comparable keys a b" and "key_tuple keys a = Inr ka" and "key_tuple keys b = Inr kb"
  shows "\<exists>c c'. tuple_lt ka kb = Inr c \<and> tuple_lt kb ka = Inr c'"
proof -
  from assms obtain c where c: "tuple_lt ka kb = Inr c"
    by (auto simp: comparable_def split: sum.splits)
  from tuple_lt_defined [OF c] show ?thesis using c by blast
qed

lemma all_comparable_dropWhile:
  assumes "list_all (\<lambda>a. list_all (comparable keys a) rs) ls"
  shows "list_all (\<lambda>a. list_all (comparable keys a) (dropWhile Q rs)) (dropWhile P ls)"
  using assms by (auto simp: list_all_iff dest!: set_dropWhileD)

lemma all_comparable_dropWhile_left:
  assumes "list_all (\<lambda>a. list_all (comparable keys a) rs) ls"
  shows "list_all (\<lambda>a. list_all (comparable keys a) rs) (dropWhile P ls)"
  using assms by (auto simp: list_all_iff dest!: set_dropWhileD)

lemma all_comparable_dropWhile_right:
  assumes "list_all (\<lambda>a. list_all (comparable keys a) rs) ls"
  shows "list_all (\<lambda>a. list_all (comparable keys a) (dropWhile Q rs)) ls"
  using assms by (auto simp: list_all_iff dest!: set_dropWhileD)

lemma joiner_calls_groups:
  "key_sorted keys ls \<Longrightarrow> key_sorted keys rs \<Longrightarrow>
   list_all (\<lambda>a. list_all (comparable keys a) rs) ls \<Longrightarrow>
   \<exists>calls. joiner_calls keys ls rs = Inr calls
     \<and> (\<forall>k. filter (touches keys k) calls = group_call keys k ls rs)"
proof (induction keys ls rs rule: walk_induct)
  case (both_ended keys)
  show ?case by (simp add: joiner_calls_Nil group_call_def)
next
  case (right_ended keys l ls)
  from right_ended.prems(1) obtain k1 where k1: "key_tuple keys l = Inr k1"
    by (auto simp: key_sorted_def has_keys_iff)
  have "key_sorted keys (dropWhile (same_key keys k1) ls)"
    using right_ended.prems(1) key_sorted_Cons key_sorted_dropWhile by blast
  from right_ended.IH [OF k1 this right_ended.prems(2)] obtain calls where
    c: "joiner_calls keys (dropWhile (same_key keys k1) ls) [] = Inr calls"
    and f: "\<And>k. filter (touches keys k) calls = group_call keys k (dropWhile (same_key keys k1) ls) []"
    by (auto simp: list_all_iff)
  have "joiner_calls keys (l # ls) [] = Inr ((l # takeWhile (same_key keys k1) ls, []) # calls)"
    using k1 _ c by (rule joiner_calls_left) simp
  moreover have "filter (touches keys k) ((l # takeWhile (same_key keys k1) ls, []) # calls)
       = group_call keys k (l # ls) []" for k
    using right_ended.prems(1) k1 _ f by (rule step_left) simp
  ultimately show ?case by blast
next
  case (left_ended keys r rs)
  from left_ended.prems(2) obtain k2 where k2: "key_tuple keys r = Inr k2"
    by (auto simp: key_sorted_def has_keys_iff)
  have "key_sorted keys (dropWhile (same_key keys k2) rs)"
    using left_ended.prems(2) key_sorted_Cons key_sorted_dropWhile by blast
  from left_ended.IH [OF k2 left_ended.prems(1) this] obtain calls where
    c: "joiner_calls keys [] (dropWhile (same_key keys k2) rs) = Inr calls"
    and f: "\<And>k. filter (touches keys k) calls = group_call keys k [] (dropWhile (same_key keys k2) rs)"
    by auto
  have "joiner_calls keys [] (r # rs) = Inr (([], r # takeWhile (same_key keys k2) rs) # calls)"
    using k2 _ c by (rule joiner_calls_right) simp
  moreover have "filter (touches keys k) (([], r # takeWhile (same_key keys k2) rs) # calls)
       = group_call keys k [] (r # rs)" for k
    using left_ended.prems(2) k2 _ f by (rule step_right) simp
  ultimately show ?case by blast
next
  case (both keys l ls r rs)
  note sl = both.prems(1) and sr = both.prems(2) and cmp = both.prems(3)
  from sl obtain k1 where k1: "key_tuple keys l = Inr k1"
    by (auto simp: key_sorted_def has_keys_iff)
  from sr obtain k2 where k2: "key_tuple keys r = Inr k2"
    by (auto simp: key_sorted_def has_keys_iff)
  have "comparable keys l r" using cmp by simp
  from comparable_tuple_lt [OF this k1 k2] obtain c c' where
    c: "tuple_lt k1 k2 = Inr c" and c': "tuple_lt k2 k1 = Inr c'"
    by blast
  have sl': "key_sorted keys (dropWhile (same_key keys k1) ls)"
    using sl key_sorted_Cons key_sorted_dropWhile by blast
  have sr': "key_sorted keys (dropWhile (same_key keys k2) rs)"
    using sr key_sorted_Cons key_sorted_dropWhile by blast
  have cmp_tl: "list_all (\<lambda>a. list_all (comparable keys a) (r # rs)) ls"
    and cmp_tr: "list_all (\<lambda>a. list_all (comparable keys a) rs) (l # ls)"
    and cmp_tt: "list_all (\<lambda>a. list_all (comparable keys a) rs) ls"
    using cmp by (auto simp: list_all_iff)
  consider (lt) "c" | (gt) "\<not> c" "c'" | (eq) "\<not> c" "\<not> c'" by blast
  then show ?case
  proof cases
    case lt
    then have lt': "tuple_lt k1 k2 = Inr True" using c by simp
    have "list_all (\<lambda>a. list_all (comparable keys a) (r # rs)) (dropWhile (same_key keys k1) ls)"
      using cmp_tl by (rule all_comparable_dropWhile_left)
    from both.IH(1) [OF k1 k2 lt' sl' sr this] obtain calls where
      cs: "joiner_calls keys (dropWhile (same_key keys k1) ls) (r # rs) = Inr calls"
      and f: "\<And>k. filter (touches keys k) calls
                = group_call keys k (dropWhile (same_key keys k1) ls) (r # rs)"
      by auto
    have absent: "filter (same_key keys k1) (r # rs) = []"
      using sr k2 lt' by (rule smaller_key_absent)
    have "joiner_calls keys (l # ls) (r # rs)
          = Inr ((l # takeWhile (same_key keys k1) ls, []) # calls)"
      using k1 _ cs by (rule joiner_calls_left) (use k2 lt' in simp)
    moreover have "filter (touches keys k) ((l # takeWhile (same_key keys k1) ls, []) # calls)
         = group_call keys k (l # ls) (r # rs)" for k
      using sl k1 absent f by (rule step_left)
    ultimately show ?thesis by blast
  next
    case gt
    then have f1: "tuple_lt k1 k2 = Inr False" and gt': "tuple_lt k2 k1 = Inr True"
      using c c' by simp_all
    have "list_all (\<lambda>a. list_all (comparable keys a) (dropWhile (same_key keys k2) rs)) (l # ls)"
      using cmp_tr by (rule all_comparable_dropWhile_right)
    from both.IH(2) [OF k1 k2 f1 gt' sl sr' this] obtain calls where
      cs: "joiner_calls keys (l # ls) (dropWhile (same_key keys k2) rs) = Inr calls"
      and f: "\<And>k. filter (touches keys k) calls
                = group_call keys k (l # ls) (dropWhile (same_key keys k2) rs)"
      by auto
    have absent: "filter (same_key keys k2) (l # ls) = []"
      using sl k1 gt' by (rule smaller_key_absent)
    have "joiner_calls keys (l # ls) (r # rs)
          = Inr (([], r # takeWhile (same_key keys k2) rs) # calls)"
      using k2 _ cs by (rule joiner_calls_right) (use k1 f1 gt' in simp)
    moreover have "filter (touches keys k) (([], r # takeWhile (same_key keys k2) rs) # calls)
         = group_call keys k (l # ls) (r # rs)" for k
      using sr k2 absent f by (rule step_right)
    ultimately show ?thesis by blast
  next
    case eq
    then have f1: "tuple_lt k1 k2 = Inr False" and f2: "tuple_lt k2 k1 = Inr False"
      using c c' by simp_all
    then have same: "k2 = k1" using tuple_lt_total by blast
    have "list_all (\<lambda>a. list_all (comparable keys a) (dropWhile (same_key keys k2) rs))
            (dropWhile (same_key keys k1) ls)"
      using cmp_tt by (rule all_comparable_dropWhile)
    from both.IH(3) [OF k1 k2 f1 f2 sl' sr' this] obtain calls where
      cs: "joiner_calls keys (dropWhile (same_key keys k1) ls) (dropWhile (same_key keys k1) rs)
            = Inr calls"
      and f: "\<And>k. filter (touches keys k) calls
                = group_call keys k (dropWhile (same_key keys k1) ls)
                    (dropWhile (same_key keys k1) rs)"
      using same by auto
    have k2': "key_tuple keys r = Inr k1" using k2 same by simp
    have "joiner_calls keys (l # ls) (r # rs)
          = Inr ((l # takeWhile (same_key keys k1) ls, r # takeWhile (same_key keys k1) rs) # calls)"
      using k1 k2' cs by (rule joiner_calls_both)
    moreover have "filter (touches keys k)
           ((l # takeWhile (same_key keys k1) ls, r # takeWhile (same_key keys k1) rs) # calls)
         = group_call keys k (l # ls) (r # rs)" for k
      using sl sr k1 k2' f by (rule step_both)
    ultimately show ?thesis by blast
  qed
qed

lemma scenario_sorted:
  "key_sorted [''k''] [[(''k'', VInt 1), (''v'', VInt 10)]]"
  "key_sorted [''k''] [[(''k'', VInt 2), (''w'', VInt 20)]]"
  "list_all (\<lambda>a. list_all (comparable [''k''] a) [[(''k'', VInt 2), (''w'', VInt 20)]])
     [[(''k'', VInt 1), (''v'', VInt 10)]]"
  "list_all wf_row [[(''k'', VInt 1), (''v'', VInt 10)]]"
  "list_all wf_row [[(''k'', VInt 2), (''w'', VInt 20)]]"
  by (simp_all add: key_sorted_def has_keys_def getitem_def comparable_def wf_row_def columns_def)

lemma scenario_calls:
  "joiner_calls [''k''] [[(''k'', VInt 1), (''v'', VInt 10)]] [[(''k'', VInt 2), (''w'', VInt 20)]]
     = Inr [([[(''k'', VInt 1), (''v'', VInt 10)]], []), ([], [[(''k'', VInt 2), (''w'', VInt 20)]])]"
  by (simp add: joiner_calls_def getitem_def)

lemma scenario_filter:
  "filter (same_key [''k''] [VInt 1]) [[(''k'', VInt 1), (''v'', VInt 10)]]
     = [[(''k'', VInt 1), (''v'', VInt 10)]]"
  "filter (same_key [''k''] [VInt 1]) [[(''k'', VInt 2), (''w'', VInt 20)]] = []"
  by (simp_all add: same_key_def getitem_def)

section \<open>Keys on one side of a join, for comparable keys\<close>

lemma one_sided_key_comparable:
  assumes "key_sorted keys ls" and "key_sorted keys rs"
    and "list_all (\<lambda>a. list_all (comparable keys a) rs) ls"
    and "list_all wf_row ls" and "list_all wf_row rs"
  shows "\<exists>calls. joiner_calls keys ls rs = Inr calls
      \<and> Join J keys ls rs = Inr (concat (map (\<lambda>(a, b). J keys a b) calls))
      \<and> (\<forall>k g. g \<noteq> [] \<and> filter (same_key keys k) ls = g \<and> filter (same_key keys k) rs = [] \<longrightarrow>
            filter (touches keys k) calls = [(g, [])]
            \<and> InnerJoiner a_suffix b_suffix keys g [] = []
            \<and> LeftJoiner a_suffix b_suffix keys g [] = g
            \<and> RightJoiner a_suffix b_suffix keys g [] = []
            \<and> OuterJoiner a_suffix b_suffix keys g [] = g)
      \<and> (\<forall>k g. g \<noteq> [] \<and> filter (same_key keys k) ls = [] \<and> filter (same_key keys k) rs = g \<longrightarrow>
            filter (touches keys k) calls = [([], g)]
            \<and> InnerJoiner a_suffix b_suffix keys [] g = []
            \<and> LeftJoiner a_suffix b_suffix keys [] g = []
            \<and> RightJoiner a_suffix b_suffix keys [] g = g
            \<and> OuterJoiner a_suffix b_suffix keys [] g = g)"
proof -
  from joiner_calls_groups [OF assms(1-3)] obtain calls where
    c: "joiner_calls keys ls rs = Inr calls"
    and f: "\<And>k. filter (touches keys k) calls = group_call keys k ls rs"
    by blast
  have j: "Join J keys ls rs = Inr (concat (map (\<lambda>(a, b). J keys a b) calls))"
    using c by (simp add: Join_calls [of J keys ls rs])
  have left: "filter (touches keys k) calls = [(g, [])]
            \<and> InnerJoiner a_suffix b_suffix keys g [] = []
            \<and> LeftJoiner a_suffix b_suffix keys g [] = g
            \<and> RightJoiner a_suffix b_suffix keys g [] = []
            \<and> OuterJoiner a_suffix b_suffix keys g [] = g"
    if "g \<noteq> []" "filter (same_key keys k) ls = g" "filter (same_key keys k) rs = []" for k g
  proof -
    have "list_all wf_row g" using assms(4) that(2) by (auto simp: list_all_iff)
    from joiners_left_only [OF this] show ?thesis
      using that f [of k] by (simp add: group_call_def)
  qed
  have right: "filter (touches keys k) calls = [([], g)]
            \<and> InnerJoiner a_suffix b_suffix keys [] g = []
            \<and> LeftJoiner a_suffix b_suffix keys [] g = []
            \<and> RightJoiner a_suffix b_suffix keys [] g = g
            \<and> OuterJoiner a_suffix b_suffix keys [] g = g"
    if "g \<noteq> []" "filter (same_key keys k) ls = []" "filter (same_key keys k) rs = g" for k g
  proof -
    have "list_all wf_row g" using assms(5) that(3) by (auto simp: list_all_iff)
    from joiners_right_only [OF this] show ?thesis
      using that f [of k] by (simp add: group_call_def)
  qed
  show ?thesis using c j left right by blast
qed

section \<open>Keys on one side of a join (C4)\<close>

text \<open>
  C4, as amended. Let both streams be key-sorted, with rows that are well-formed
  dicts, and let the key columns be typed over the rows of both streams together:
  each join key column holds integers only, or strings only, in all rows of the left
  and the right stream. Then the walk ends without exception,
  and what \<open>Join\<close> emits is what the joiner yields on the calls of the walk, one
  after the other. For a key \<open>k\<close> whose rows \<open>g\<close> are all in the left stream,
  exactly one call touches the key, and it is the call with the group \<open>g\<close> and no
  right row: there \<open>InnerJoiner\<close> and \<open>RightJoiner\<close> emit nothing, and
  \<open>LeftJoiner\<close> and \<open>OuterJoiner\<close> emit the rows of \<open>g\<close> as they are, so as
  many rows as the group has, with the columns of the left side only. For a key whose
  rows are all in the right stream the one call has no left row and the group
  \<open>g\<close>: \<open>InnerJoiner\<close> and \<open>LeftJoiner\<close> emit nothing, \<open>RightJoiner\<close> and
  \<open>OuterJoiner\<close> emit the rows of \<open>g\<close> as they are.
\<close>

theorem Join_one_sided_key:
  assumes "key_sorted keys ls" and "key_sorted keys rs"
    and "typed_keys keys (ls @ rs)"
    and "list_all wf_row ls" and "list_all wf_row rs"
  shows "\<exists>calls. joiner_calls keys ls rs = Inr calls
      \<and> Join J keys ls rs = Inr (concat (map (\<lambda>(a, b). J keys a b) calls))
      \<and> (\<forall>k g. g \<noteq> [] \<and> filter (same_key keys k) ls = g \<and> filter (same_key keys k) rs = [] \<longrightarrow>
            filter (touches keys k) calls = [(g, [])]
            \<and> InnerJoiner a_suffix b_suffix keys g [] = []
            \<and> LeftJoiner a_suffix b_suffix keys g [] = g
            \<and> RightJoiner a_suffix b_suffix keys g [] = []
            \<and> OuterJoiner a_suffix b_suffix keys g [] = g)
      \<and> (\<forall>k g. g \<noteq> [] \<and> filter (same_key keys k) ls = [] \<and> filter (same_key keys k) rs = g \<longrightarrow>
            filter (touches keys k) calls = [([], g)]
            \<and> InnerJoiner a_suffix b_suffix keys [] g = []
            \<and> LeftJoiner a_suffix b_suffix keys [] g = []
            \<and> RightJoiner a_suffix b_suffix keys [] g = g
            \<and> OuterJoiner a_suffix b_suffix keys [] g = g)"
  by (rule one_sided_key_comparable
        [OF assms(1,2) typed_keys_comparable [OF assms(3)] assms(4,5)])

theorem Join_one_sided_key_witness:
  "key_sorted [''k''] [[(''k'', VInt 1), (''v'', VInt 10)]]
   \<and> key_sorted [''k''] [[(''k'', VInt 2), (''w'', VInt 20)]]
   \<and> typed_keys [''k'']
       ([[(''k'', VInt 1), (''v'', VInt 10)]] @ [[(''k'', VInt 2), (''w'', VInt 20)]])
   \<and> list_all wf_row [[(''k'', VInt 1), (''v'', VInt 10)]]
   \<and> list_all wf_row [[(''k'', VInt 2), (''w'', VInt 20)]]
   \<and> [[(''k'', VInt 1), (''v'', VInt 10)]] \<noteq> []
   \<and> filter (same_key [''k''] [VInt 1]) [[(''k'', VInt 1), (''v'', VInt 10)]]
       = [[(''k'', VInt 1), (''v'', VInt 10)]]
   \<and> filter (same_key [''k''] [VInt 1]) [[(''k'', VInt 2), (''w'', VInt 20)]] = []
   \<and> (\<exists>calls. joiner_calls [''k''] [[(''k'', VInt 1), (''v'', VInt 10)]]
                  [[(''k'', VInt 2), (''w'', VInt 20)]] = Inr calls
         \<and> filter (touches [''k''] [VInt 1]) calls = [([[(''k'', VInt 1), (''v'', VInt 10)]], [])])
   \<and> Join (OuterJoiner ''_1'' ''_2'') [''k''] [[(''k'', VInt 1), (''v'', VInt 10)]]
        [[(''k'', VInt 2), (''w'', VInt 20)]]
       = Inr [[(''k'', VInt 1), (''v'', VInt 10)], [(''k'', VInt 2), (''w'', VInt 20)]]
   \<and> Join (InnerJoiner ''_1'' ''_2'') [''k''] [[(''k'', VInt 1), (''v'', VInt 10)]]
        [[(''k'', VInt 2), (''w'', VInt 20)]] = Inr []"
proof -
  note h = scenario_sorted
  have ty: "typed_keys [''k'']
       ([[(''k'', VInt 1), (''v'', VInt 10)]] @ [[(''k'', VInt 2), (''w'', VInt 20)]])"
    by (simp add: typed_keys_def typed_column_def holds_int_def getitem_def)
  from Join_one_sided_key [OF h(1,2) ty h(4,5), of "OuterJoiner ''_1'' ''_2''" "''_1''" "''_2''"]
  obtain calls where
    c: "joiner_calls [''k''] [[(''k'', VInt 1), (''v'', VInt 10)]]
          [[(''k'', VInt 2), (''w'', VInt 20)]] = Inr calls"
    and l: "\<forall>k g. g \<noteq> [] \<and> filter (same_key [''k''] k) [[(''k'', VInt 1), (''v'', VInt 10)]] = g
             \<and> filter (same_key [''k''] k) [[(''k'', VInt 2), (''w'', VInt 20)]] = [] \<longrightarrow>
            filter (touches [''k''] k) calls = [(g, [])]
            \<and> InnerJoiner ''_1'' ''_2'' [''k''] g [] = []
            \<and> LeftJoiner ''_1'' ''_2'' [''k''] g [] = g
            \<and> RightJoiner ''_1'' ''_2'' [''k''] g [] = []
            \<and> OuterJoiner ''_1'' ''_2'' [''k''] g [] = g"
    by blast
  have t: "filter (touches [''k''] [VInt 1]) calls = [([[(''k'', VInt 1), (''v'', VInt 10)]], [])]"
    using l scenario_filter by blast
  have o: "Join (OuterJoiner ''_1'' ''_2'') [''k''] [[(''k'', VInt 1), (''v'', VInt 10)]]
        [[(''k'', VInt 2), (''w'', VInt 20)]]
       = Inr [[(''k'', VInt 1), (''v'', VInt 10)], [(''k'', VInt 2), (''w'', VInt 20)]]"
    using joiners_left_only(4) [OF h(4)] joiners_right_only(4) [OF h(5)]
    by (simp add: Join_calls scenario_calls)
  have i: "Join (InnerJoiner ''_1'' ''_2'') [''k''] [[(''k'', VInt 1), (''v'', VInt 10)]]
        [[(''k'', VInt 2), (''w'', VInt 20)]] = Inr []"
    by (simp add: Join_calls scenario_calls InnerJoiner_def)
  show ?thesis using h(1,2,4,5) ty scenario_filter c t o i by blast
qed

text \<open>
  C4 as stated fails. The left stream \<^verbatim>\<open>[{'k': 1}]\<close> and the right stream
  \<^verbatim>\<open>[{'k': 'a'}]\<close> are both sorted by \<^verbatim>\<open>'k'\<close>, and the key \<^verbatim>\<open>1\<close> is in
  the left stream only, with one row. \<open>LeftJoiner\<close> and \<open>OuterJoiner\<close> ought to
  emit that row. But \<open>Join\<close> compares the keys of the two streams with
  \<^verbatim>\<open><\<close> before it calls the joiner, and an integer and a string have no order:
  the join raises \<^verbatim>\<open>TypeError\<close>, whatever the joiner, and emits no row.
\<close>

theorem Join_mixed_keys_counterexample:
  "key_sorted [''k''] [[(''k'', VInt 1)]] \<and> key_sorted [''k''] [[(''k'', VStr ''a'')]]
   \<and> filter (same_key [''k''] [VInt 1]) [[(''k'', VInt 1)]] = [[(''k'', VInt 1)]]
   \<and> filter (same_key [''k''] [VInt 1]) [[(''k'', VStr ''a'')]] = []
   \<and> Join (LeftJoiner ''_1'' ''_2'') [''k''] [[(''k'', VInt 1)]] [[(''k'', VStr ''a'')]] = Inl TypeError
   \<and> Join (OuterJoiner ''_1'' ''_2'') [''k''] [[(''k'', VInt 1)]] [[(''k'', VStr ''a'')]] = Inl TypeError
   \<and> Join (InnerJoiner ''_1'' ''_2'') [''k''] [[(''k'', VInt 1)]] [[(''k'', VStr ''a'')]] = Inl TypeError
   \<and> Join (RightJoiner ''_1'' ''_2'') [''k''] [[(''k'', VInt 1)]] [[(''k'', VStr ''a'')]] = Inl TypeError"
  by (simp add: key_sorted_def has_keys_def key_le_def same_key_def getitem_def)

section \<open>The rows of a matched key (C2)\<close>

text \<open>
  C2 fails for \<open>RightJoiner\<close>. On the key 1, with the left row
  \<^verbatim>\<open>{'k': 1, 'x': 'L'}\<close> and the right row \<^verbatim>\<open>{'k': 1, 'x': 'R'}\<close>, the three other
  joiners emit \<^verbatim>\<open>{'k': 1, 'x_1': 'L', 'x_2': 'R'}\<close>, the left value under the suffix
  \<^verbatim>\<open>_1\<close>; \<open>RightJoiner\<close> emits \<^verbatim>\<open>{'k': 1, 'x_1': 'R', 'x_2': 'L'}\<close>. With two
  rows on each side, \<open>RightJoiner\<close> emits the rows in the order "for each right
  row, for each left row", each with the columns of the right row first, where
  \<open>InnerJoiner\<close> runs over the left rows first and puts their columns first.
\<close>

theorem RightJoiner_swaps_sides:
  "Join (RightJoiner ''_1'' ''_2'') [''k'']
     [[(''k'', VInt 1), (''x'', VStr ''L'')]] [[(''k'', VInt 1), (''x'', VStr ''R'')]]
     = Inr [[(''k'', VInt 1), (''x_1'', VStr ''R''), (''x_2'', VStr ''L'')]]
   \<and> Join (InnerJoiner ''_1'' ''_2'') [''k'']
     [[(''k'', VInt 1), (''x'', VStr ''L'')]] [[(''k'', VInt 1), (''x'', VStr ''R'')]]
     = Inr [[(''k'', VInt 1), (''x_1'', VStr ''L''), (''x_2'', VStr ''R'')]]
   \<and> Join (LeftJoiner ''_1'' ''_2'') [''k'']
     [[(''k'', VInt 1), (''x'', VStr ''L'')]] [[(''k'', VInt 1), (''x'', VStr ''R'')]]
     = Inr [[(''k'', VInt 1), (''x_1'', VStr ''L''), (''x_2'', VStr ''R'')]]
   \<and> Join (OuterJoiner ''_1'' ''_2'') [''k'']
     [[(''k'', VInt 1), (''x'', VStr ''L'')]] [[(''k'', VInt 1), (''x'', VStr ''R'')]]
     = Inr [[(''k'', VInt 1), (''x_1'', VStr ''L''), (''x_2'', VStr ''R'')]]
   \<and> RightJoiner ''_1'' ''_2'' [''k'']
       [[(''k'', VInt 1), (''a'', VInt 1)], [(''k'', VInt 1), (''a'', VInt 2)]]
       [[(''k'', VInt 1), (''b'', VInt 1)], [(''k'', VInt 1), (''b'', VInt 2)]]
     = [[(''k'', VInt 1), (''b'', VInt 1), (''a'', VInt 1)],
        [(''k'', VInt 1), (''b'', VInt 1), (''a'', VInt 2)],
        [(''k'', VInt 1), (''b'', VInt 2), (''a'', VInt 1)],
        [(''k'', VInt 1), (''b'', VInt 2), (''a'', VInt 2)]]
   \<and> InnerJoiner ''_1'' ''_2'' [''k'']
       [[(''k'', VInt 1), (''a'', VInt 1)], [(''k'', VInt 1), (''a'', VInt 2)]]
       [[(''k'', VInt 1), (''b'', VInt 1)], [(''k'', VInt 1), (''b'', VInt 2)]]
     = [[(''k'', VInt 1), (''a'', VInt 1), (''b'', VInt 1)],
        [(''k'', VInt 1), (''a'', VInt 1), (''b'', VInt 2)],
        [(''k'', VInt 1), (''a'', VInt 2), (''b'', VInt 1)],
        [(''k'', VInt 1), (''a'', VInt 2), (''b'', VInt 2)]]"
  by (simp add: getitem_def same_key_def RightJoiner_def InnerJoiner_def LeftJoiner_def
        OuterJoiner_def or_empty_row_def join_two_rows_def intersected_keys_def append_keys_def
        columns_def)

section \<open>Facts about the sort\<close>

lemma enc_val_inj: "enc_val a = enc_val b \<longleftrightarrow> a = b"
  by (cases a; cases b) auto

lemma map_enc_val_inj: "map enc_val a = map enc_val b \<longleftrightarrow> a = b"
  using enc_val_inj by (metis inj_onI list.inj_map_strong)

lemma enc_key_inj: "enc_key a = enc_key b \<longleftrightarrow> a = b"
  by (cases a; cases b) (auto simp: enc_val_inj map_enc_val_inj)

lemma py_lt_enc: "py_lt a b = Inr c \<Longrightarrow> c = (enc_val a < enc_val b)"
  by (cases a; cases b) auto

lemma tuple_lt_enc: "tuple_lt a b = Inr c \<Longrightarrow> c = (map enc_val a < map enc_val b)"
proof (induction a b rule: tuple_lt.induct)
  case (4 x xs y ys)
  show ?case
  proof (cases "x = y")
    case True
    then show ?thesis using 4 by simp
  next
    case False
    then have "py_lt x y = Inr c" using 4 by simp
    from py_lt_enc [OF this] show ?thesis
      using False by (simp add: enc_val_inj)
  qed
qed auto

lemma sortkey_lt_enc: "sortkey_lt a b = Inr c \<Longrightarrow> c = (enc_key a < enc_key b)"
  by (cases a; cases b) (auto dest: py_lt_enc tuple_lt_enc)

lemma insort_lt_eq:
  assumes "\<forall>y \<in> set ys. \<exists>c. sortkey_lt (fst y) (fst x) = Inr c"
  shows "insort_lt x ys = Inr (insort_key (\<lambda>p. enc_key (fst p)) x ys)"
  using assms
proof (induction ys)
  case Nil
  show ?case by simp
next
  case (Cons y ys)
  then obtain c where c: "sortkey_lt (fst y) (fst x) = Inr c" by auto
  have "c = (enc_key (fst y) < enc_key (fst x))" using c by (rule sortkey_lt_enc)
  then show ?case using c Cons by (cases c) (auto simp: not_less)
qed

lemma sort_lt_eq:
  assumes "\<forall>x \<in> set xs. \<forall>y \<in> set xs. \<exists>c. sortkey_lt (fst y) (fst x) = Inr c"
  shows "sort_lt xs = Inr (sort_key (\<lambda>p. enc_key (fst p)) xs)"
  using assms
proof (induction xs)
  case Nil
  show ?case by simp
next
  case (Cons x xs)
  have "sort_lt xs = Inr (sort_key (\<lambda>p. enc_key (fst p)) xs)"
    using Cons by simp
  moreover have "insort_lt x (sort_key (\<lambda>p. enc_key (fst p)) xs)
      = Inr (insort_key (\<lambda>p. enc_key (fst p)) x (sort_key (\<lambda>p. enc_key (fst p)) xs))"
    by (rule insort_lt_eq) (use Cons.prems in simp)
  ultimately show ?case by (simp add: sort_key_def)
qed

lemma decorate_ok:
  assumes "\<forall>r \<in> set rs. \<exists>k. f r = Inr k"
  shows "\<exists>ds. decorate f rs = Inr ds \<and> map snd ds = rs \<and> (\<forall>p \<in> set ds. f (snd p) = Inr (fst p))"
  using assms
proof (induction rs)
  case Nil
  show ?case by simp
next
  case (Cons r rs)
  then obtain k where k: "f r = Inr k" by auto
  from Cons obtain ds where "decorate f rs = Inr ds" "map snd ds = rs"
    "\<forall>p \<in> set ds. f (snd p) = Inr (fst p)"
    by auto
  then have "decorate f (r # rs) = Inr ((k, r) # ds) \<and> map snd ((k, r) # ds) = r # rs
      \<and> (\<forall>p \<in> set ((k, r) # ds). f (snd p) = Inr (fst p))"
    using k by simp
  then show ?case by (rule exI [of _ "(k, r) # ds"])
qed

lemma itemgetter_key_of: "keys \<noteq> [] \<Longrightarrow> \<exists>f. itemgetter keys = Inr f \<and> key_of keys = f"
  by (cases keys rule: list.exhaust; cases "tl keys")
     (auto simp: itemgetter_def key_of_def fun_eq_iff split: list.splits)

lemma list_sort_result:
  assumes "decorate f rs = Inr ds"
    and "\<forall>x \<in> set ds. \<forall>y \<in> set ds. \<exists>c. sortkey_lt (fst y) (fst x) = Inr c"
  shows "list_sort f reverse rs =
     Inr (map snd (if reverse then rev (sort_key (\<lambda>p. enc_key (fst p)) (rev ds))
                   else sort_key (\<lambda>p. enc_key (fst p)) ds))"
proof -
  have "sort_lt ds = Inr (sort_key (\<lambda>p. enc_key (fst p)) ds)"
    using assms(2) by (rule sort_lt_eq)
  moreover have "sort_lt (rev ds) = Inr (sort_key (\<lambda>p. enc_key (fst p)) (rev ds))"
    by (rule sort_lt_eq) (use assms(2) in simp)
  ultimately show ?thesis using assms(1) by (simp add: list_sort_def)
qed

text \<open>The sorted list of decorated rows: a permutation, in order, and stable.\<close>

lemma sorted_decorated:
  fixes ds :: "(sortkey \<times> row) list"
  defines "S \<equiv> \<lambda>reverse. if reverse then rev (sort_key (\<lambda>p. enc_key (fst p)) (rev ds))
                          else sort_key (\<lambda>p. enc_key (fst p)) ds"
  shows "mset (S reverse) = mset ds"
    and "sorted_wrt (\<lambda>p q. if reverse then enc_key (fst q) \<le> enc_key (fst p)
                           else enc_key (fst p) \<le> enc_key (fst q)) (S reverse)"
    and "filter (\<lambda>p. fst p = k) (S reverse) = filter (\<lambda>p. fst p = k) ds"
proof -
  let ?F = "\<lambda>p :: sortkey \<times> row. enc_key (fst p)"
  show "mset (S reverse) = mset ds"
    by (simp add: S_def)
  have up: "sorted_wrt (\<lambda>p q. ?F p \<le> ?F q) (sort_key ?F xs)" for xs
    using sorted_sort_key [of ?F xs] by (simp add: sorted_map)
  show "sorted_wrt (\<lambda>p q. if reverse then enc_key (fst q) \<le> enc_key (fst p)
                           else enc_key (fst p) \<le> enc_key (fst q)) (S reverse)"
    using up [of ds] up [of "rev ds"] by (simp add: S_def sorted_wrt_rev)
  have st: "filter (\<lambda>p. fst p = k) (sort_key ?F xs) = filter (\<lambda>p. fst p = k) xs" for xs
    using sort_key_stable [of ?F "enc_key k" xs] by (simp add: enc_key_inj)
  show "filter (\<lambda>p. fst p = k) (S reverse) = filter (\<lambda>p. fst p = k) ds"
    using st [of ds] st [of "rev ds"] by (simp add: S_def rev_filter [symmetric])
qed

lemma key_lt_decorated:
  assumes "key_of keys (snd p) = Inr (fst p)" and "key_of keys (snd q) = Inr (fst q)"
  shows "key_lt keys (snd p) (snd q) = sortkey_lt (fst p) (fst q)"
  using assms by (simp add: key_lt_def)

lemma ExternalSort_example:
  "ExternalSort [''k''] True
     [[(''k'', VInt 1), (''v'', VStr ''a'')], [(''k'', VInt 2), (''v'', VStr ''b'')],
      [(''k'', VInt 1), (''v'', VStr ''c'')]]
   = Inr [[(''k'', VInt 2), (''v'', VStr ''b'')], [(''k'', VInt 1), (''v'', VStr ''a'')],
          [(''k'', VInt 1), (''v'', VStr ''c'')]]"
  by (simp add: ExternalSort_def do_sort_def itemgetter_def list_sort_def getitem_def)

section \<open>ExternalSort, for comparable keys\<close>

lemma sorts_comparable:
  assumes "keys \<noteq> []"
    and "list_all (\<lambda>a. list_all (sort_comparable keys a) rs) rs"
  shows "\<exists>out. ExternalSort keys reverse rs = Inr out
     \<and> mset out = mset rs \<and> length out = length rs
     \<and> sorted_wrt (\<lambda>a b. if reverse then key_lt keys a b = Inr False
                           else key_lt keys b a = Inr False) out
     \<and> (\<forall>k. filter (\<lambda>r. key_of keys r = k) out = filter (\<lambda>r. key_of keys r = k) rs)"
proof -
  from itemgetter_key_of [OF assms(1)] obtain f where
    f: "itemgetter keys = Inr f" and kf: "key_of keys = f"
    by blast
  have cmp: "\<exists>c. key_lt keys a b = Inr c" if "a \<in> set rs" "b \<in> set rs" for a b
  proof -
    from assms(2) that have "sort_comparable keys a b" by (auto simp: list_all_iff)
    then show ?thesis by (cases "key_lt keys a b") (auto simp: sort_comparable_def)
  qed
  have "\<forall>r \<in> set rs. \<exists>k. f r = Inr k"
    using cmp kf by (fastforce simp: key_lt_def split: sum.splits)
  from decorate_ok [OF this] obtain ds where
    dec: "decorate f rs = Inr ds" and rs: "map snd ds = rs"
    and keyed: "\<forall>p \<in> set ds. key_of keys (snd p) = Inr (fst p)"
    using kf by auto
  have in_rs: "snd p \<in> set rs" if "p \<in> set ds" for p
    using that rs by auto
  have lt: "\<exists>c. sortkey_lt (fst p) (fst q) = Inr c" if "p \<in> set ds" "q \<in> set ds" for p q
    using cmp [OF in_rs [OF that(1)] in_rs [OF that(2)]] keyed that
    by (simp add: key_lt_decorated)
  define S where "S = (if reverse then rev (sort_key (\<lambda>p. enc_key (fst p)) (rev ds))
                       else sort_key (\<lambda>p. enc_key (fst p)) ds)"
  have sorted: "list_sort f reverse rs = Inr (map snd S)"
    unfolding S_def by (rule list_sort_result [OF dec]) (use lt in blast)
  have m: "mset S = mset ds"
    and o: "sorted_wrt (\<lambda>p q. if reverse then enc_key (fst q) \<le> enc_key (fst p)
                           else enc_key (fst p) \<le> enc_key (fst q)) S"
    and st: "\<And>k. filter (\<lambda>p. fst p = k) S = filter (\<lambda>p. fst p = k) ds"
    unfolding S_def using sorted_decorated [where reverse = reverse and ds = ds] by simp_all
  have setS: "set S = set ds" using m by (metis set_mset_mset)
  let ?out = "map snd S"
  have perm: "mset ?out = mset rs"
    using m rs by (metis mset_map)
  then have len: "length ?out = length rs"
    by (metis size_mset)
  have run: "ExternalSort keys reverse rs = Inr ?out"
    using f sorted len by (simp add: ExternalSort_def do_sort_def)
  have order: "sorted_wrt (\<lambda>a b. if reverse then key_lt keys a b = Inr False
                           else key_lt keys b a = Inr False) ?out"
  proof -
    have "sorted_wrt (\<lambda>p q. if reverse then key_lt keys (snd p) (snd q) = Inr False
                           else key_lt keys (snd q) (snd p) = Inr False) S"
    proof (rule sorted_wrt_mono_rel [OF _ o])
      fix p q assume p: "p \<in> set S" and q: "q \<in> set S"
        and le: "if reverse then enc_key (fst q) \<le> enc_key (fst p)
                 else enc_key (fst p) \<le> enc_key (fst q)"
      have pd: "p \<in> set ds" and qd: "q \<in> set ds" using p q setS by auto
      have kp: "key_of keys (snd p) = Inr (fst p)" and kq: "key_of keys (snd q) = Inr (fst q)"
        using keyed pd qd by auto
      from lt [OF pd qd] obtain c where c: "sortkey_lt (fst p) (fst q) = Inr c" by blast
      from lt [OF qd pd] obtain c' where c': "sortkey_lt (fst q) (fst p) = Inr c'" by blast
      show "if reverse then key_lt keys (snd p) (snd q) = Inr False
            else key_lt keys (snd q) (snd p) = Inr False"
        using le c c' sortkey_lt_enc [OF c] sortkey_lt_enc [OF c']
          key_lt_decorated [OF kp kq] key_lt_decorated [OF kq kp]
        by (auto simp: not_less [symmetric])
    qed
    then show ?thesis by (simp add: sorted_wrt_map)
  qed
  have stable: "filter (\<lambda>r. key_of keys r = k) ?out = filter (\<lambda>r. key_of keys r = k) rs" for k
  proof -
    have a: "filter (\<lambda>p. key_of keys (snd p) = k) xs = filter (\<lambda>p. Inr (fst p) = k) xs"
      if "set xs = set ds" for xs
      using keyed that by (intro filter_cong) auto
    have b: "filter (\<lambda>p. Inr (fst p) = k) S = filter (\<lambda>p. Inr (fst p) = k) ds"
    proof (cases k)
      case (Inl e)
      then show ?thesis by simp
    next
      case (Inr k')
      then show ?thesis using st [of k'] by simp
    qed
    have "filter (\<lambda>r. key_of keys r = k) ?out = map snd (filter (\<lambda>p. key_of keys (snd p) = k) S)"
      by (simp add: filter_map comp_def)
    also have "\<dots> = map snd (filter (\<lambda>p. key_of keys (snd p) = k) ds)"
      using a [OF setS] a [OF refl] b by simp
    also have "\<dots> = filter (\<lambda>r. key_of keys r = k) (map snd ds)"
      by (simp add: filter_map comp_def)
    finally show ?thesis using rs by simp
  qed
  show ?thesis using run perm len order stable by blast
qed

section \<open>ExternalSort (C3)\<close>

text \<open>
  C3, as amended. Let the key list be not empty, and let the key columns be typed
  over the input: every row has every sort key, and each sort key column holds
  integers only, or strings only, in all rows. Then \<open>ExternalSort\<close> yields a
  stream that is a permutation of the input, with as many rows. Without
  \<^verbatim>\<open>reverse\<close> no row has a smaller sort key than a row before it (ascending); with
  \<^verbatim>\<open>reverse\<close> no row has a greater sort key than a row before it (descending). In
  both cases the rows with one and the same sort key are in the order they have in
  the input (stable).
\<close>

theorem ExternalSort_sorts:
  assumes "keys \<noteq> []"
    and "typed_keys keys rs"
  shows "\<exists>out. ExternalSort keys reverse rs = Inr out
     \<and> mset out = mset rs \<and> length out = length rs
     \<and> sorted_wrt (\<lambda>a b. if reverse then key_lt keys a b = Inr False
                           else key_lt keys b a = Inr False) out
     \<and> (\<forall>k. filter (\<lambda>r. key_of keys r = k) out = filter (\<lambda>r. key_of keys r = k) rs)"
  by (rule sorts_comparable [OF assms(1) typed_keys_sort_comparable [OF assms]])

theorem ExternalSort_sorts_witness:
  "[''k''] \<noteq> []
   \<and> typed_keys [''k'']
        [[(''k'', VInt 1), (''v'', VStr ''a'')], [(''k'', VInt 2), (''v'', VStr ''b'')],
         [(''k'', VInt 1), (''v'', VStr ''c'')]]
   \<and> (\<exists>out. ExternalSort [''k''] True
          [[(''k'', VInt 1), (''v'', VStr ''a'')], [(''k'', VInt 2), (''v'', VStr ''b'')],
           [(''k'', VInt 1), (''v'', VStr ''c'')]] = Inr out
        \<and> mset out = mset [[(''k'', VInt 1), (''v'', VStr ''a'')], [(''k'', VInt 2), (''v'', VStr ''b'')],
             [(''k'', VInt 1), (''v'', VStr ''c'')]]
        \<and> sorted_wrt (\<lambda>a b. key_lt [''k''] a b = Inr False) out)
   \<and> ExternalSort [''k''] True
        [[(''k'', VInt 1), (''v'', VStr ''a'')], [(''k'', VInt 2), (''v'', VStr ''b'')],
         [(''k'', VInt 1), (''v'', VStr ''c'')]]
      = Inr [[(''k'', VInt 2), (''v'', VStr ''b'')], [(''k'', VInt 1), (''v'', VStr ''a'')],
             [(''k'', VInt 1), (''v'', VStr ''c'')]]"
proof -
  have n: "[''k''] \<noteq> []" by simp
  have c: "typed_keys [''k'']
        [[(''k'', VInt 1), (''v'', VStr ''a'')], [(''k'', VInt 2), (''v'', VStr ''b'')],
         [(''k'', VInt 1), (''v'', VStr ''c'')]]"
    by (simp add: typed_keys_def typed_column_def holds_int_def getitem_def)
  from ExternalSort_sorts [OF n c, of True]
  have "\<exists>out. ExternalSort [''k''] True
          [[(''k'', VInt 1), (''v'', VStr ''a'')], [(''k'', VInt 2), (''v'', VStr ''b'')],
           [(''k'', VInt 1), (''v'', VStr ''c'')]] = Inr out
        \<and> mset out = mset [[(''k'', VInt 1), (''v'', VStr ''a'')], [(''k'', VInt 2), (''v'', VStr ''b'')],
             [(''k'', VInt 1), (''v'', VStr ''c'')]]
        \<and> sorted_wrt (\<lambda>a b. key_lt [''k''] a b = Inr False) out"
    by simp blast
  then show ?thesis using n c ExternalSort_example by blast
qed

text \<open>
  C3 as stated fails. The two rows \<^verbatim>\<open>{'k': 1}\<close> and \<^verbatim>\<open>{'k': 'a'}\<close> both have the
  sort key \<^verbatim>\<open>'k'\<close>, but an integer and a string have no order: the comparison
  raises in the helper, which dies without sending a row, and the driver yields no
  stream. With the empty key list every row has the sort keys, and the helper dies
  in \<^verbatim>\<open>itemgetter()\<close>, even on the empty input.
\<close>

theorem ExternalSort_no_order_counterexample:
  "contains [(''k'', VInt 1)] ''k'' \<and> contains [(''k'', VStr ''a'')] ''k''
   \<and> ExternalSort [''k''] False [[(''k'', VInt 1)], [(''k'', VStr ''a'')]] = Inl Blocked
   \<and> ExternalSort [] False [] = Inl Blocked"
  by (simp add: ExternalSort_def do_sort_def itemgetter_def list_sort_def getitem_def
        contains_def columns_def)

end
